theory Spec2Isabelle
  imports Complex_Main
begin

section \<open>Numbers and vectors\<close>

text \<open>
  JavaScript numbers are modelled as the reals they approximate: every arithmetic
  operation of the source is the exact operation here. The vector operations are those of
  the three.js class \<open>Vector3\<close> that the source calls; \<open>normalize\<close> divides by
  \<open>length() || 1\<close>, so the zero vector stays the zero vector.
\<close>

record vec3 =
  vec_x :: real
  vec_y :: real
  vec_z :: real

definition Vector3 :: "real \<Rightarrow> real \<Rightarrow> real \<Rightarrow> vec3" where
  "Vector3 a b c = \<lparr>vec_x = a, vec_y = b, vec_z = c\<rparr>"

definition add :: "vec3 \<Rightarrow> vec3 \<Rightarrow> vec3" where
  "add u v = Vector3 (vec_x u + vec_x v) (vec_y u + vec_y v) (vec_z u + vec_z v)"

definition sub :: "vec3 \<Rightarrow> vec3 \<Rightarrow> vec3" where
  "sub u v = Vector3 (vec_x u - vec_x v) (vec_y u - vec_y v) (vec_z u - vec_z v)"

definition multiplyScalar :: "vec3 \<Rightarrow> real \<Rightarrow> vec3" where
  "multiplyScalar v k = Vector3 (vec_x v * k) (vec_y v * k) (vec_z v * k)"

definition negate :: "vec3 \<Rightarrow> vec3" where
  "negate v = Vector3 (- vec_x v) (- vec_y v) (- vec_z v)"

definition setY :: "vec3 \<Rightarrow> real \<Rightarrow> vec3" where
  "setY v b = v\<lparr>vec_y := b\<rparr>"

definition dot :: "vec3 \<Rightarrow> vec3 \<Rightarrow> real" where
  "dot u v = vec_x u * vec_x v + vec_y u * vec_y v + vec_z u * vec_z v"

definition lengthSq :: "vec3 \<Rightarrow> real" where
  "lengthSq v = dot v v"

definition vlength :: "vec3 \<Rightarrow> real" where
  "vlength v = sqrt (lengthSq v)"

definition divideScalar :: "vec3 \<Rightarrow> real \<Rightarrow> vec3" where
  "divideScalar v k = multiplyScalar v (1 / k)"

definition normalize :: "vec3 \<Rightarrow> vec3" where
  "normalize v = divideScalar v (if vlength v = 0 then 1 else vlength v)"

definition clampLength :: "vec3 \<Rightarrow> real \<Rightarrow> real \<Rightarrow> vec3" where
  "clampLength v lo hi =
     multiplyScalar (divideScalar v (if vlength v = 0 then 1 else vlength v))
       (max lo (min hi (vlength v)))"

definition distanceToSquared :: "vec3 \<Rightarrow> vec3 \<Rightarrow> real" where
  "distanceToSquared u v = lengthSq (sub u v)"

definition distanceTo :: "vec3 \<Rightarrow> vec3 \<Rightarrow> real" where
  "distanceTo u v = sqrt (distanceToSquared u v)"

definition addScaledVector :: "vec3 \<Rightarrow> vec3 \<Rightarrow> real \<Rightarrow> vec3" where
  "addScaledVector u v k = add u (multiplyScalar v k)"

definition projectOnVector :: "vec3 \<Rightarrow> vec3 \<Rightarrow> vec3" where
  "projectOnVector u v =
     (if lengthSq v = 0 then Vector3 0 0 0
      else multiplyScalar v (dot v u / lengthSq v))"

definition projectOnPlane :: "vec3 \<Rightarrow> vec3 \<Rightarrow> vec3" where
  "projectOnPlane u n = sub u (projectOnVector u n)"

definition sign :: "real \<Rightarrow> real" where
  "sign a = (if a > 0 then 1 else if a < 0 then - 1 else 0)"

section \<open>Constants of the simulation\<close>

definition MODEL_SCALE :: real where
  "MODEL_SCALE = 8"

definition MIN_AGENT_SEPARATION :: real where
  "MIN_AGENT_SEPARATION = MODEL_SCALE * 1.5"

definition PORTAL_WIDTH_FACTOR :: real where
  "PORTAL_WIDTH_FACTOR = MODEL_SCALE * 1.8"

definition PORTAL_THRESHOLD :: real where
  "PORTAL_THRESHOLD = MODEL_SCALE * 0.6"

definition AGENT_MOVE_SPEED :: real where
  "AGENT_MOVE_SPEED = 1.0 * MODEL_SCALE"

definition VELOCITY_THRESHOLD_SQ :: real where
  "VELOCITY_THRESHOLD_SQ = 0.01 * MODEL_SCALE * 0.01 * MODEL_SCALE"

definition IDLE_CHANCE :: real where
  "IDLE_CHANCE = 0.002"

definition MIN_IDLE_TIME :: real where
  "MIN_IDLE_TIME = 2.0"

definition MAX_IDLE_TIME :: real where
  "MAX_IDLE_TIME = 6.0"

definition MIN_TIME_IN_DEPT :: real where
  "MIN_TIME_IN_DEPT = 8.0"

definition MAX_TIME_IN_DEPT :: real where
  "MAX_TIME_IN_DEPT = 20.0"

definition DEPT_VISIT_CHANCE :: real where
  "DEPT_VISIT_CHANCE = 0.05"

section \<open>Data model\<close>

datatype AGENT_STATE =
    WANDERING
  | GOING_TO_DEPT
  | WAITING_ENTRY
  | ENTERING
  | INSIDE_DEPT
  | GOING_TO_EXIT
  | WAITING_EXIT
  | EXITING
  | IDLE

text \<open>
  A portal object is shared: \<open>dept.entryPortal\<close> (or \<open>dept.exitPortal\<close>) and the
  \<open>portalTarget\<close> of every agent heading for it are the same object, and both sides write
  its \<open>isOccupied\<close> and \<open>queue\<close>. The portals therefore live in a store addressed by the
  index of the department in \<open>departments\<close> and the role of the portal; an agent is
  referred to (in a queue) by its index in \<open>agents\<close>, which \<open>spawnAgents\<close> also stores as
  its \<open>id\<close>, and a department by its index in \<open>departments\<close>.
\<close>

datatype portal_role = EntryPortal | ExitPortal

type_synonym portal_ref = "nat \<times> portal_role"

datatype axis = AxisX | AxisZ

record portal =
  center :: vec3
  width :: real
  faceNormal :: vec3
  worldPos :: vec3
  offsetAxis :: axis
  isOccupied :: bool
  queue :: "nat list"

record department =
  dept_size :: "real \<times> real \<times> real"
  dept_position :: vec3

record agent =
  agent_id :: nat
  position :: vec3
  velocity :: vec3
  baseHeight :: real
  state :: AGENT_STATE
  idleTimer :: real
  timeInDepartment :: real
  targetDepartment :: "nat option"
  portalTarget :: "portal_ref option"
  targetPosition :: "vec3 option"
  previousState :: "AGENT_STATE option"

text \<open>
  The module-level variables of the source, together with the two things the simulation
  reads from outside: \<open>rng\<close> counts the calls of \<open>Math.random\<close> made so far (the k-th call
  returns \<open>rnd k\<close> for a sequence \<open>rnd\<close> that the functions take as a parameter), and
  \<open>countInput\<close> is the value of the \<open>count\<close> input element of the page, if the element
  exists. \<open>loadedGltfModel\<close> records whether the avatar model has been loaded.
\<close>

record sim =
  departments :: "department list"
  portals :: "portal_ref \<Rightarrow> portal"
  agents :: "agent list"
  speed :: real
  agentCount :: real
  isPaused :: bool
  modelBaseHeightOffset :: real
  loadedGltfModel :: bool
  countInput :: "string option"
  rng :: nat

definition entryPortal :: "nat \<Rightarrow> portal_ref" where
  "entryPortal d = (d, EntryPortal)"

definition exitPortal :: "nat \<Rightarrow> portal_ref" where
  "exitPortal d = (d, ExitPortal)"

text \<open>
  Reading an agent through a reference. A queue of the source holds agent objects; the
  model's index that is not in \<open>agents\<close> stands for no object, which the source's
  \<open>nextAgent &&\<close> tests treat as "nothing to do".
\<close>

definition agentAt :: "sim \<Rightarrow> nat \<Rightarrow> agent option" where
  "agentAt s i = (if i < length (agents s) then Some (agents s ! i) else None)"

definition setAgent :: "nat \<Rightarrow> agent \<Rightarrow> sim \<Rightarrow> sim" where
  "setAgent i a s = s\<lparr>agents := (agents s)[i := a]\<rparr>"

definition setPortal :: "portal_ref \<Rightarrow> portal \<Rightarrow> sim \<Rightarrow> sim" where
  "setPortal p c s = s\<lparr>portals := (portals s)(p := c)\<rparr>"

section \<open>Portal and queue management\<close>

text \<open>
  The waiting and the transit state that belong to a portal of each role, and the
  velocity \<open>processPortalQueues\<close> gives an agent it lets through.
\<close>

fun waitingState :: "portal_role \<Rightarrow> AGENT_STATE" where
  "waitingState EntryPortal = WAITING_ENTRY"
| "waitingState ExitPortal = WAITING_EXIT"

fun transitState :: "portal_role \<Rightarrow> AGENT_STATE" where
  "transitState EntryPortal = ENTERING"
| "transitState ExitPortal = EXITING"

text \<open>The state in which an agent walks towards a portal of each role.\<close>

fun goingState :: "portal_role \<Rightarrow> AGENT_STATE" where
  "goingState EntryPortal = GOING_TO_DEPT"
| "goingState ExitPortal = GOING_TO_EXIT"

fun passVelocity :: "portal_role \<Rightarrow> portal \<Rightarrow> vec3" where
  "passVelocity EntryPortal c = multiplyScalar (negate (faceNormal c)) (AGENT_MOVE_SPEED * 0.8)"
| "passVelocity ExitPortal c = multiplyScalar (faceNormal c) AGENT_MOVE_SPEED"

text \<open>
  One of the two blocks of the body of \<open>processPortalQueues\<close> ("Check Entry Queue",
  "Check Exit Queue"), for the portal \<open>(d, r)\<close>: \<open>queue.shift()\<close> removes the first
  entry; an agent in the waiting state of the role takes the portal, any other agent is
  set to \<open>WANDERING\<close>. The block has no loop: it handles one entry.
\<close>

definition checkQueue :: "portal_role \<Rightarrow> nat \<Rightarrow> sim \<Rightarrow> sim" where
  "checkQueue r d s =
     (let c = portals s (d, r) in
      if \<not> isOccupied c \<and> length (queue c) > 0 then
        (case queue c of
           [] \<Rightarrow> s
         | nextAgent # rest \<Rightarrow>
             (let s1 = setPortal (d, r) (c\<lparr>queue := rest\<rparr>) s in
              case agentAt s1 nextAgent of
                None \<Rightarrow> s1
              | Some a \<Rightarrow>
                  if state a = waitingState r then
                    setAgent nextAgent
                      (a\<lparr>state := transitState r, velocity := passVelocity r c\<rparr>)
                      (setPortal (d, r) (c\<lparr>queue := rest, isOccupied := True\<rparr>) s1)
                  else setAgent nextAgent (a\<lparr>state := WANDERING\<rparr>) s1))
      else s)"

definition processDept :: "sim \<Rightarrow> nat \<Rightarrow> sim" where
  "processDept s d = checkQueue ExitPortal d (checkQueue EntryPortal d s)"

definition processPortalQueues :: "sim \<Rightarrow> sim" where
  "processPortalQueues s = foldl processDept s [0..<length (departments s)]"

section \<open>Random numbers\<close>

text \<open>
  \<open>Math.random()\<close> is the only source of randomness; the k-th call of a run returns
  \<open>rnd k\<close>. The helpers of three.js are
  \<open>randFloat(low, high) = low + Math.random() * (high - low)\<close> and
  \<open>randFloatSpread(range) = range * (0.5 - Math.random())\<close>; they take the drawn number
  as their last argument here.
\<close>

definition randFloat :: "real \<Rightarrow> real \<Rightarrow> real \<Rightarrow> real" where
  "randFloat low high u = low + u * (high - low)"

definition randFloatSpread :: "real \<Rightarrow> real \<Rightarrow> real" where
  "randFloatSpread rg u = rg * (0.5 - u)"

definition bump :: "nat \<Rightarrow> sim \<Rightarrow> sim" where
  "bump k s = s\<lparr>rng := rng s + k\<rparr>"

text \<open>
  \<open>velocity.set(randFloatSpread(1), 0, randFloatSpread(1)).normalize().multiplyScalar(k)\<close>,
  with the two draws \<open>rnd n\<close> and \<open>rnd (n + 1)\<close>.
\<close>

definition randomVelocity :: "(nat \<Rightarrow> real) \<Rightarrow> nat \<Rightarrow> real \<Rightarrow> vec3" where
  "randomVelocity rnd n k =
     multiplyScalar
       (normalize (Vector3 (randFloatSpread 1 (rnd n)) 0 (randFloatSpread 1 (rnd (n + 1))))) k"

text \<open>\<open>target.clone().sub(agent.mesh.position).setY(0).normalize().multiplyScalar(k)\<close>\<close>

definition velocityToward :: "vec3 \<Rightarrow> vec3 \<Rightarrow> real \<Rightarrow> vec3" where
  "velocityToward target pos k = multiplyScalar (normalize (setY (sub target pos) 0)) k"

section \<open>The agent state machine\<close>

text \<open>
  The only exception the tick can raise is the \<open>TypeError\<close> of reading a property of
  \<open>null\<close>: the \<open>INSIDE_DEPT\<close> case reads \<open>agent.targetDepartment\<close> without the null
  check of the other cases. Reading the box of a department through an index outside
  \<open>departments\<close>, which no reference of the source can be, is treated in the same way.
\<close>

datatype error = TypeError

text \<open>
  \<open>getRandomPointInDepartment\<close>: the result is \<open>null\<close> (\<open>None\<close>) for a department too
  small for the padding; the second component is the number of draws made.
\<close>

definition getRandomPointInDepartment ::
  "(nat \<Rightarrow> real) \<Rightarrow> nat \<Rightarrow> sim \<Rightarrow> nat option \<Rightarrow> error + (vec3 option \<times> nat)" where
  "getRandomPointInDepartment rnd n s department =
     (case department of
        None \<Rightarrow> Inl TypeError
      | Some d \<Rightarrow>
          if d < length (departments s) then
            (let deptPos = dept_position (departments s ! d);
                 sx = fst (dept_size (departments s ! d));
                 sz = snd (snd (dept_size (departments s ! d)));
                 padding = MODEL_SCALE * 1.5
             in if sx \<le> padding * 2 \<or> sz \<le> padding * 2 then Inr (None, 0)
                else Inr (Some (Vector3
                       (vec_x deptPos + randFloatSpread (sx - padding * 2) (rnd n))
                       (modelBaseHeightOffset s)
                       (vec_z deptPos + randFloatSpread (sz - padding * 2) (rnd (n + 1)))), 2))
          else Inl TypeError)"

definition caseIDLE :: "(nat \<Rightarrow> real) \<Rightarrow> real \<Rightarrow> nat \<Rightarrow> sim \<Rightarrow> sim" where
  "caseIDLE rnd delta i s =
     (let a1 = (agents s ! i)\<lparr>idleTimer := idleTimer (agents s ! i) - delta\<rparr> in
      if idleTimer a1 \<le> 0 then
        (let a2 = a1\<lparr>state := (case previousState a1 of Some st \<Rightarrow> st | None \<Rightarrow> WANDERING)\<rparr> in
         case portalTarget a2 of
           Some p \<Rightarrow>
             setAgent i (a2\<lparr>velocity :=
               velocityToward (worldPos (portals s p)) (position a2) AGENT_MOVE_SPEED\<rparr>) s
         | None \<Rightarrow>
             (case targetPosition a2 of
                Some t \<Rightarrow>
                  setAgent i (a2\<lparr>velocity :=
                    velocityToward t (position a2) (AGENT_MOVE_SPEED * 0.7)\<rparr>) s
              | None \<Rightarrow>
                  if state a2 = WANDERING then
                    setAgent i (a2\<lparr>velocity := randomVelocity rnd (rng s) AGENT_MOVE_SPEED\<rparr>)
                      (bump 2 s)
                  else setAgent i a2 s))
      else setAgent i a1 s)"

definition caseWANDERING :: "(nat \<Rightarrow> real) \<Rightarrow> real \<Rightarrow> nat \<Rightarrow> sim \<Rightarrow> sim" where
  "caseWANDERING rnd delta i s =
     (let a = agents s ! i in
      if rnd (rng s) < DEPT_VISIT_CHANCE * delta then
        (let k = \<lfloor>rnd (rng s + 1) * real (length (departments s))\<rfloor> in
         if 0 \<le> k \<and> k < int (length (departments s)) then
           setAgent i
             (a\<lparr>targetDepartment := Some (nat k),
                portalTarget := Some (entryPortal (nat k)),
                state := GOING_TO_DEPT,
                velocity := velocityToward (worldPos (portals s (entryPortal (nat k))))
                              (position a) AGENT_MOVE_SPEED\<rparr>)
             (bump 2 s)
         else setAgent i (a\<lparr>targetDepartment := None\<rparr>) (bump 2 s))
      else if rnd (rng s + 1) < IDLE_CHANCE * delta then
        setAgent i
          (a\<lparr>previousState := Some WANDERING,
             state := IDLE,
             idleTimer := randFloat MIN_IDLE_TIME MAX_IDLE_TIME (rnd (rng s + 2)),
             velocity := Vector3 0 0 0\<rparr>)
          (bump 3 s)
      else bump 2 s)"

definition caseGOING_TO_DEPT :: "nat \<Rightarrow> sim \<Rightarrow> sim" where
  "caseGOING_TO_DEPT i s =
     (let a = agents s ! i in
      case portalTarget a of
        None \<Rightarrow> setAgent i (a\<lparr>state := WANDERING\<rparr>) s
      | Some p \<Rightarrow>
          if targetDepartment a = None then setAgent i (a\<lparr>state := WANDERING\<rparr>) s
          else if distanceTo (position a) (worldPos (portals s p)) < PORTAL_THRESHOLD then
            (if \<not> isOccupied (portals s p) then
               setAgent i
                 (a\<lparr>state := ENTERING,
                    velocity := multiplyScalar (negate (faceNormal (portals s p)))
                                  (AGENT_MOVE_SPEED * 0.8)\<rparr>)
                 (setPortal p ((portals s p)\<lparr>isOccupied := True\<rparr>) s)
             else
               setAgent i (a\<lparr>state := WAITING_ENTRY, velocity := Vector3 0 0 0\<rparr>)
                 (setPortal p ((portals s p)\<lparr>queue := queue (portals s p) @ [i]\<rparr>) s))
          else
            setAgent i (a\<lparr>velocity :=
              velocityToward (worldPos (portals s p)) (position a) AGENT_MOVE_SPEED\<rparr>) s)"

definition caseENTERING :: "(nat \<Rightarrow> real) \<Rightarrow> nat \<Rightarrow> sim \<Rightarrow> error + sim" where
  "caseENTERING rnd i s =
     (let a = agents s ! i in
      case portalTarget a of
        None \<Rightarrow> Inr (setAgent i (a\<lparr>state := WANDERING\<rparr>) s)
      | Some p \<Rightarrow>
          if targetDepartment a = None then Inr (setAgent i (a\<lparr>state := WANDERING\<rparr>) s)
          else if dot (sub (position a) (worldPos (portals s p))) (faceNormal (portals s p))
                    < - MODEL_SCALE * 0.5 then
            (case getRandomPointInDepartment rnd (rng s + 1) s (targetDepartment a) of
               Inl e \<Rightarrow> Inl e
             | Inr (tp, k) \<Rightarrow>
                 (let a1 = a\<lparr>state := INSIDE_DEPT,
                              portalTarget := None,
                              timeInDepartment :=
                                randFloat MIN_TIME_IN_DEPT MAX_TIME_IN_DEPT (rnd (rng s)),
                              targetPosition := tp\<rparr>;
                      s1 = setPortal p ((portals s p)\<lparr>isOccupied := False\<rparr>) s
                  in case tp of
                       Some t \<Rightarrow>
                         Inr (setAgent i (a1\<lparr>velocity :=
                                velocityToward t (position a1) (AGENT_MOVE_SPEED * 0.7)\<rparr>)
                                (bump (1 + k) s1))
                     | None \<Rightarrow>
                         Inr (setAgent i (a1\<lparr>velocity :=
                                randomVelocity rnd (rng s + 1 + k) (AGENT_MOVE_SPEED * 0.5)\<rparr>)
                                (bump (3 + k) s1))))
          else Inr s)"


text \<open>
  The \<open>INSIDE_DEPT\<close> case in three parts: the internal target
  ("Move towards internal target or wander"), the decision to leave ("Time to leave?"),
  and the case itself, which starts with the timer and the chance to go idle.
\<close>

definition retarget :: "agent \<Rightarrow> agent" where
  "retarget a =
     (case targetPosition a of
        Some t \<Rightarrow> a\<lparr>velocity := velocityToward t (position a) (AGENT_MOVE_SPEED * 0.7)\<rparr>
      | None \<Rightarrow> a)"

definition insideMove :: "(nat \<Rightarrow> real) \<Rightarrow> nat \<Rightarrow> sim \<Rightarrow> agent \<Rightarrow> error + (agent \<times> nat)" where
  "insideMove rnd n s a =
     (case targetPosition a of
        None \<Rightarrow> Inr (a, 0)
      | Some t \<Rightarrow>
          if distanceTo (position a) t < MODEL_SCALE then
            (case getRandomPointInDepartment rnd n s (targetDepartment a) of
               Inl e \<Rightarrow> Inl e
             | Inr (tp, k) \<Rightarrow> Inr (retarget (a\<lparr>targetPosition := tp\<rparr>), k))
          else Inr (retarget a, 0))"

definition insideLeave :: "sim \<Rightarrow> agent \<Rightarrow> error + agent" where
  "insideLeave s a =
     (if timeInDepartment a \<le> 0 then
        (case targetDepartment a of
           None \<Rightarrow> Inl TypeError
         | Some d \<Rightarrow>
             Inr (a\<lparr>portalTarget := Some (exitPortal d),
                    state := GOING_TO_EXIT,
                    velocity := velocityToward (worldPos (portals s (exitPortal d)))
                                  (position a) AGENT_MOVE_SPEED,
                    targetPosition := None\<rparr>))
      else Inr a)"

definition caseINSIDE_DEPT :: "(nat \<Rightarrow> real) \<Rightarrow> real \<Rightarrow> nat \<Rightarrow> sim \<Rightarrow> error + sim" where
  "caseINSIDE_DEPT rnd delta i s =
     (let a1 = (agents s ! i)\<lparr>timeInDepartment := timeInDepartment (agents s ! i) - delta\<rparr> in
      if idleTimer a1 \<le> 0 \<and> rnd (rng s) < IDLE_CHANCE * delta * 1.5 then
        Inr (setAgent i
               (a1\<lparr>previousState := Some INSIDE_DEPT,
                   state := IDLE,
                   idleTimer := randFloat MIN_IDLE_TIME MAX_IDLE_TIME (rnd (rng s + 1)),
                   velocity := Vector3 0 0 0\<rparr>)
               (bump 2 s))
      else
        (let n0 = (if idleTimer a1 \<le> 0 then 1 else 0) in
         case insideMove rnd (rng s + n0) s a1 of
           Inl e \<Rightarrow> Inl e
         | Inr (a2, k) \<Rightarrow>
             (case insideLeave s a2 of
                Inl e \<Rightarrow> Inl e
              | Inr a3 \<Rightarrow> Inr (setAgent i a3 (bump (n0 + k) s)))))"

definition caseGOING_TO_EXIT :: "nat \<Rightarrow> sim \<Rightarrow> sim" where
  "caseGOING_TO_EXIT i s =
     (let a = agents s ! i in
      case portalTarget a of
        None \<Rightarrow> setAgent i (a\<lparr>state := WANDERING\<rparr>) s
      | Some p \<Rightarrow>
          if targetDepartment a = None then setAgent i (a\<lparr>state := WANDERING\<rparr>) s
          else if distanceTo (position a) (worldPos (portals s p)) < PORTAL_THRESHOLD then
            (if \<not> isOccupied (portals s p) then
               setAgent i
                 (a\<lparr>state := EXITING,
                    velocity := multiplyScalar (faceNormal (portals s p)) AGENT_MOVE_SPEED\<rparr>)
                 (setPortal p ((portals s p)\<lparr>isOccupied := True\<rparr>) s)
             else
               setAgent i (a\<lparr>state := WAITING_EXIT, velocity := Vector3 0 0 0\<rparr>)
                 (setPortal p ((portals s p)\<lparr>queue := queue (portals s p) @ [i]\<rparr>) s))
          else
            setAgent i (a\<lparr>velocity :=
              velocityToward (worldPos (portals s p)) (position a) AGENT_MOVE_SPEED\<rparr>) s)"

definition caseEXITING :: "(nat \<Rightarrow> real) \<Rightarrow> nat \<Rightarrow> sim \<Rightarrow> sim" where
  "caseEXITING rnd i s =
     (let a = agents s ! i in
      case portalTarget a of
        None \<Rightarrow> setAgent i (a\<lparr>state := WANDERING\<rparr>) s
      | Some p \<Rightarrow>
          if targetDepartment a = None then setAgent i (a\<lparr>state := WANDERING\<rparr>) s
          else if dot (sub (position a) (worldPos (portals s p))) (faceNormal (portals s p))
                    > MODEL_SCALE * 0.5 then
            setAgent i
              (a\<lparr>state := WANDERING,
                 portalTarget := None,
                 targetDepartment := None,
                 velocity := randomVelocity rnd (rng s) AGENT_MOVE_SPEED\<rparr>)
              (bump 2 (setPortal p ((portals s p)\<lparr>isOccupied := False\<rparr>) s))
          else s)"

definition caseWAITING :: "nat \<Rightarrow> sim \<Rightarrow> sim" where
  "caseWAITING i s = setAgent i ((agents s ! i)\<lparr>velocity := Vector3 0 0 0\<rparr>) s"

text \<open>\<open>updateAgentState(agent, delta)\<close> for the agent \<open>agents[i]\<close>.\<close>

definition updateAgentState :: "(nat \<Rightarrow> real) \<Rightarrow> real \<Rightarrow> nat \<Rightarrow> sim \<Rightarrow> error + sim" where
  "updateAgentState rnd delta i s =
     (case state (agents s ! i) of
        IDLE \<Rightarrow> Inr (caseIDLE rnd delta i s)
      | WANDERING \<Rightarrow> Inr (caseWANDERING rnd delta i s)
      | GOING_TO_DEPT \<Rightarrow> Inr (caseGOING_TO_DEPT i s)
      | ENTERING \<Rightarrow> caseENTERING rnd i s
      | INSIDE_DEPT \<Rightarrow> caseINSIDE_DEPT rnd delta i s
      | GOING_TO_EXIT \<Rightarrow> Inr (caseGOING_TO_EXIT i s)
      | EXITING \<Rightarrow> Inr (caseEXITING rnd i s)
      | WAITING_ENTRY \<Rightarrow> Inr (caseWAITING i s)
      | WAITING_EXIT \<Rightarrow> Inr (caseWAITING i s))"

section \<open>Movement\<close>

text \<open>
  \<open>updateAgentMovement\<close>: the position of the agent's mesh. The rest of the function
  turns the mesh towards the velocity, which nothing in the simulation reads.
\<close>

definition heldState :: "AGENT_STATE \<Rightarrow> bool" where
  "heldState st = (st = IDLE \<or> st = WAITING_ENTRY \<or> st = WAITING_EXIT)"

definition updateAgentMovement :: "real \<Rightarrow> nat \<Rightarrow> sim \<Rightarrow> sim" where
  "updateAgentMovement effectiveSpeedFactor i s =
     (let a = agents s ! i;
          a1 = (if state a \<noteq> IDLE \<and> state a \<noteq> WAITING_ENTRY \<and> state a \<noteq> WAITING_EXIT
                then a\<lparr>position :=
                       add (position a) (multiplyScalar (velocity a) effectiveSpeedFactor)\<rparr>
                else a)
      in setAgent i (a1\<lparr>position := (position a1)\<lparr>vec_y := baseHeight a1\<rparr>\<rparr>) s)"

section \<open>Collisions with the floor boundary and the department walls\<close>

definition isPointOnPortal :: "vec3 \<Rightarrow> portal \<Rightarrow> bool" where
  "isPointOnPortal point c =
     (let portalLineDir = (if offsetAxis c = AxisZ then Vector3 0 0 1 else Vector3 1 0 0);
          portalStart = addScaledVector (worldPos c) portalLineDir (- width c / 2);
          portalEnd = addScaledVector (worldPos c) portalLineDir (width c / 2);
          lineVec = sub portalEnd portalStart;
          pointVec = sub point portalStart;
          lineLenSq = lengthSq lineVec
      in if lineLenSq < 0.0001 then False
         else
           (let t = dot pointVec lineVec / lineLenSq;
                closestPointOnLine = addScaledVector portalStart lineVec t;
                distSq = distanceToSquared point closestPointOnLine;
                tolerance = 0.5
            in t \<ge> 0 \<and> t \<le> 1 \<and> distSq < tolerance * tolerance))"

text \<open>
  The release of a claimed portal, written twice in \<open>handleAgentEnvironmentCollisions\<close>:
  \<open>if (agent.portalTarget && agent.portalTarget.isOccupied && (state is ENTERING or
  EXITING)) agent.portalTarget.isOccupied = false\<close>.
\<close>

definition releaseClaimed :: "agent \<Rightarrow> sim \<Rightarrow> sim" where
  "releaseClaimed a s =
     (case portalTarget a of
        None \<Rightarrow> s
      | Some p \<Rightarrow>
          if isOccupied (portals s p) \<and> (state a = ENTERING \<or> state a = EXITING)
          then setPortal p ((portals s p)\<lparr>isOccupied := False\<rparr>) s
          else s)"

definition inTransitGoal :: "AGENT_STATE \<Rightarrow> bool" where
  "inTransitGoal st =
     (st = GOING_TO_DEPT \<or> st = ENTERING \<or> st = GOING_TO_EXIT \<or> st = EXITING)"

text \<open>The first part of \<open>handleAgentEnvironmentCollisions\<close>: "Floor Boundary Collision".\<close>

definition bouncesX :: "agent \<Rightarrow> bool" where
  "bouncesX a = (\<bar>vec_x (position a)\<bar> > 800 / 2 - MODEL_SCALE * 0.5)"

definition bouncesZ :: "agent \<Rightarrow> bool" where
  "bouncesZ a = (\<bar>vec_z (position a)\<bar> > 500 / 2 - MODEL_SCALE * 0.5)"

definition floorBoundary :: "nat \<Rightarrow> sim \<Rightarrow> sim" where
  "floorBoundary i s =
     (let floorHalfWidth = 800 / 2;
          floorHalfDepth = 500 / 2;
          checkRadius = MODEL_SCALE * 0.5;
          a = agents s ! i;
          a1 = (if bouncesX a
                then a\<lparr>velocity := (velocity a)\<lparr>vec_x := vec_x (velocity a) * (- 1)\<rparr>,
                       position := (position a)\<lparr>vec_x :=
                         sign (vec_x (position a)) * (floorHalfWidth - checkRadius)\<rparr>\<rparr>
                else a);
          a2 = (if bouncesZ a1
                then a1\<lparr>velocity := (velocity a1)\<lparr>vec_z := vec_z (velocity a1) * (- 1)\<rparr>,
                        position := (position a1)\<lparr>vec_z :=
                          sign (vec_z (position a1)) * (floorHalfDepth - checkRadius)\<rparr>\<rparr>
                else a1);
          bouncedOffFloor = (bouncesX a \<or> bouncesZ a1)
      in if bouncedOffFloor \<and> inTransitGoal (state a2) then
           setAgent i
             (a2\<lparr>state := WANDERING, targetDepartment := None, portalTarget := None,
                 targetPosition := None\<rparr>)
             (releaseClaimed a2 s)
         else setAgent i a2 s)"

text \<open>
  The second part, "Department Collision": the ray is cast by three.js
  (\<open>raycaster.intersectObject(dept.mesh)\<close>), so the closest intersection of a ray with the
  box of a department is a parameter \<open>rc origin direction far d\<close> of the model, returning
  the hit point and the normal of the face hit. \<open>hitNormal.multiplyScalar\<close> changes
  \<open>hitNormal\<close> in place, so the vector added to the velocity at the end is the normal
  scaled by \<open>nudgeDistance\<close> and then by \<open>0.5\<close>. The \<open>return\<close> of the source leaves the
  callback of \<open>forEach\<close>, not the loop: the remaining departments are still visited.
\<close>

type_synonym raycast = "vec3 \<Rightarrow> vec3 \<Rightarrow> real \<Rightarrow> nat \<Rightarrow> (vec3 \<times> vec3) option"

definition targetPortalOf :: "agent \<Rightarrow> nat \<Rightarrow> portal_ref option" where
  "targetPortalOf a d =
     (if state a = GOING_TO_DEPT \<or> state a = ENTERING \<or> state a = WAITING_ENTRY then
        (if targetDepartment a = Some d then Some (entryPortal d) else None)
      else if state a = GOING_TO_EXIT \<or> state a = EXITING \<or> state a = WAITING_EXIT then
        (if targetDepartment a = Some d then Some (exitPortal d) else None)
      else None)"

definition deptCollision :: "raycast \<Rightarrow> vec3 \<Rightarrow> vec3 \<Rightarrow> real \<Rightarrow> nat \<Rightarrow> sim \<Rightarrow> nat \<Rightarrow> sim" where
  "deptCollision rc origin direction far i s d =
     (case rc origin direction far d of
        None \<Rightarrow> s
      | Some (hitPoint, hitNormal) \<Rightarrow>
          (let a = agents s ! i;
               targetPortal = targetPortalOf a d;
               allowPassage =
                 (case targetPortal of
                    None \<Rightarrow> False
                  | Some tp \<Rightarrow>
                      hitNormal = faceNormal (portals s tp)
                      \<and> isPointOnPortal hitPoint (portals s tp))
           in if \<not> allowPassage then
                (let a1 = a\<lparr>velocity := projectOnPlane (velocity a) hitNormal\<rparr>;
                     nudgeDistance = 0.1;
                     hitNormal1 = multiplyScalar hitNormal nudgeDistance;
                     a2 = a1\<lparr>position := (add (position a1) hitNormal1)\<lparr>vec_y := baseHeight a1\<rparr>\<rparr>
                 in case targetPortal of
                      None \<Rightarrow> setAgent i a2 s
                    | Some tp \<Rightarrow>
                        setAgent i
                          (a2\<lparr>state := WANDERING, targetDepartment := None,
                              portalTarget := None, targetPosition := None,
                              velocity :=
                                multiplyScalar
                                  (normalize (add (velocity a2) (multiplyScalar hitNormal1 0.5)))
                                  (AGENT_MOVE_SPEED * 0.5)\<rparr>)
                          (releaseClaimed a2 s))
              else s))"

definition handleAgentEnvironmentCollisions :: "raycast \<Rightarrow> real \<Rightarrow> nat \<Rightarrow> sim \<Rightarrow> sim" where
  "handleAgentEnvironmentCollisions rc effectiveSpeedFactor i s =
     (let s1 = floorBoundary i s;
          a = agents s1 ! i;
          checkRadius = MODEL_SCALE * 0.5
      in if lengthSq (velocity a) < VELOCITY_THRESHOLD_SQ then s1
         else
           foldl
             (deptCollision rc (position a) (normalize (velocity a))
                (vlength (velocity a) * effectiveSpeedFactor + checkRadius * 1.5) i)
             s1 [0..<length (departments s1)])"


section \<open>Collisions between agents\<close>

text \<open>
  The body of the inner loop of \<open>handleAgentAgentCollisions\<close> for the pair
  \<open>(agents[i], agents[j])\<close>. \<open>collisionNormal.negate()\<close> and \<open>.multiplyScalar(...)\<close>
  change \<open>collisionNormal\<close> in place, and only the first and the third use take a
  \<open>clone()\<close>: the vector is followed here through its four uses as \<open>n0\<close> (the unit vector
  from B to A), \<open>n1\<close> after the push of B, and \<open>n2\<close> after the nudge of B.
\<close>

definition collidePair :: "sim \<Rightarrow> nat \<times> nat \<Rightarrow> sim" where
  "collidePair s ij =
     (let i = fst ij; j = snd ij; agentA = agents s ! i; agentB = agents s ! j in
      if state agentA = WAITING_ENTRY \<or> state agentA = WAITING_EXIT
         \<or> state agentB = WAITING_ENTRY \<or> state agentB = WAITING_EXIT then s
      else
        (let distanceSq = distanceToSquared (position agentA) (position agentB);
             minSeparationSq = MIN_AGENT_SEPARATION * MIN_AGENT_SEPARATION
         in if distanceSq < minSeparationSq then
              (let distance = sqrt distanceSq;
                   n0 = normalize (sub (position agentA) (position agentB));
                   overlap = MIN_AGENT_SEPARATION - distance;
                   pushFactor = overlap * 0.5;
                   velA = add (velocity agentA) (multiplyScalar n0 pushFactor);
                   n1 = multiplyScalar (negate n0) pushFactor;
                   velB = add (velocity agentB) n1;
                   velA1 = clampLength velA 0 (AGENT_MOVE_SPEED * 1.5);
                   velB1 = clampLength velB 0 (AGENT_MOVE_SPEED * 1.5);
                   nudgeAmount = overlap / 2 + 0.01;
                   posA = add (position agentA) (multiplyScalar n1 nudgeAmount);
                   n2 = multiplyScalar (negate n1) nudgeAmount;
                   posB = add (position agentB) n2
               in setAgent j
                    (agentB\<lparr>velocity := velB1, position := posB\<lparr>vec_y := baseHeight agentB\<rparr>\<rparr>)
                    (setAgent i
                       (agentA\<lparr>velocity := velA1,
                               position := posA\<lparr>vec_y := baseHeight agentA\<rparr>\<rparr>) s))
            else s))"

definition agentPairs :: "nat \<Rightarrow> (nat \<times> nat) list" where
  "agentPairs n = concat (map (\<lambda>i. map (\<lambda>j. (i, j)) [Suc i..<n]) [0..<n])"

definition handleAgentAgentCollisions :: "sim \<Rightarrow> sim" where
  "handleAgentAgentCollisions s = foldl collidePair s (agentPairs (length (agents s)))"

section \<open>The tick\<close>

text \<open>
  The callback of \<open>agents.forEach\<close> in \<open>updateAgents\<close>, for \<open>agents[i]\<close>; an exception
  of the state machine ends the whole frame. The animation clip and the trail of the
  agent, updated at the end of the callback, are not part of the model.
\<close>

definition agentStep :: "raycast \<Rightarrow> (nat \<Rightarrow> real) \<Rightarrow> real \<Rightarrow> real \<Rightarrow> nat \<Rightarrow> sim \<Rightarrow> error + sim" where
  "agentStep rc rnd delta effectiveSpeedFactor i s =
     (case updateAgentState rnd delta i s of
        Inl e \<Rightarrow> Inl e
      | Inr s1 \<Rightarrow>
          Inr (handleAgentEnvironmentCollisions rc effectiveSpeedFactor i
                 (updateAgentMovement effectiveSpeedFactor i s1)))"

fun forEachAgent ::
  "raycast \<Rightarrow> (nat \<Rightarrow> real) \<Rightarrow> real \<Rightarrow> real \<Rightarrow> nat list \<Rightarrow> sim \<Rightarrow> error + sim" where
  "forEachAgent rc rnd delta f [] s = Inr s"
| "forEachAgent rc rnd delta f (i # is) s =
     (case agentStep rc rnd delta f i s of
        Inl e \<Rightarrow> Inl e
      | Inr s1 \<Rightarrow> forEachAgent rc rnd delta f is s1)"

definition updateAgents :: "raycast \<Rightarrow> (nat \<Rightarrow> real) \<Rightarrow> real \<Rightarrow> sim \<Rightarrow> error + sim" where
  "updateAgents rc rnd delta s =
     (if isPaused s \<or> length (departments s) = 0 then Inr s
      else
        (let effectiveSpeedFactor = speed s * delta;
             s1 = handleAgentAgentCollisions s
         in case forEachAgent rc rnd delta effectiveSpeedFactor [0..<length (agents s1)] s1 of
              Inl e \<Rightarrow> Inl e
            | Inr s2 \<Rightarrow> Inr (processPortalQueues s2)))"

text \<open>
  One frame of \<open>animate\<close>, with \<open>delta\<close> the value of \<open>clock.getDelta()\<close>; the camera,
  the rendering and the animation mixers are outside the model.
\<close>

definition animate :: "raycast \<Rightarrow> (nat \<Rightarrow> real) \<Rightarrow> real \<Rightarrow> sim \<Rightarrow> error + sim" where
  "animate rc rnd delta s = (if \<not> isPaused s then updateAgents rc rnd delta s else Inr s)"

definition toggleSimulation :: "sim \<Rightarrow> sim" where
  "toggleSimulation s = s\<lparr>isPaused := \<not> isPaused s\<rparr>"

section \<open>Spawning and resetting\<close>

text \<open>
  One round of the spawn loop of \<open>spawnAgents\<close>, with its five draws: the position
  (\<open>x\<close>, \<open>z\<close>), the direction (\<open>vx\<close>, \<open>vz\<close>) and the speed factor.
\<close>

definition spawnOne :: "(nat \<Rightarrow> real) \<Rightarrow> nat \<Rightarrow> sim \<Rightarrow> sim" where
  "spawnOne rnd i s =
     (let spawnWidth = 780;
          spawnDepth = 480;
          x = randFloatSpread spawnWidth (rnd (rng s));
          z = randFloatSpread spawnDepth (rnd (rng s + 1));
          y = modelBaseHeightOffset s;
          vx = randFloatSpread 1 (rnd (rng s + 2));
          vz = randFloatSpread 1 (rnd (rng s + 3));
          velocity0 = multiplyScalar (normalize (Vector3 vx 0 vz))
                        (AGENT_MOVE_SPEED * randFloat 0.8 1.2 (rnd (rng s + 4)))
      in bump 5
           (s\<lparr>agents := agents s @
                [\<lparr>agent_id = i, position = Vector3 x y z, velocity = velocity0,
                  baseHeight = y, state = WANDERING, idleTimer = 0, timeInDepartment = 0,
                  targetDepartment = None, portalTarget = None, targetPosition = None,
                  previousState = None\<rparr>]\<rparr>))"

text \<open>\<open>for (let i = 0; i < n; i++)\<close>, where \<open>n\<close> is a number that need not be whole.\<close>

function spawnLoop :: "(nat \<Rightarrow> real) \<Rightarrow> real \<Rightarrow> nat \<Rightarrow> sim \<Rightarrow> sim" where
  "spawnLoop rnd n i s =
     (if real i < n then spawnLoop rnd n (Suc i) (spawnOne rnd i s) else s)"
  by pat_completeness auto
termination
  by (relation "measure (\<lambda>(rnd, n, i, s). nat \<lceil>n - real i\<rceil>)") (auto, linarith)

declare spawnLoop.simps [simp del]

definition spawnAgents :: "(nat \<Rightarrow> real) \<Rightarrow> real \<Rightarrow> sim \<Rightarrow> sim" where
  "spawnAgents rnd n s =
     (if \<not> loadedGltfModel s then s
      else spawnLoop rnd n 0 (s\<lparr>agents := []\<rparr>))"

text \<open>
  The argument of \<open>resetScene\<close> is \<open>undefined\<close> (the reset button), or the number
  \<open>+e.target.value\<close> of the count input, which is \<open>NaN\<close> for a text that is no number.
  (The infinite numbers are not modelled.) \<open>parseInt(text, 10)\<close> and the conversion of
  a number to the text of the input are functions of the JavaScript runtime and
  parameters here: \<open>parseInt10\<close> returns \<open>None\<close> for \<open>NaN\<close>.
\<close>

datatype newCount = Undefined | NaN | Number real

definition clearQueues :: "sim \<Rightarrow> sim" where
  "clearQueues s =
     s\<lparr>portals := (\<lambda>p. if fst p < length (departments s)
                         then (portals s p)\<lparr>queue := [], isOccupied := False\<rparr>
                         else portals s p)\<rparr>"

text \<open>\<open>countInput ? parseInt(countInput.value, 10) || 25 : 25\<close>\<close>

definition fallbackCount :: "(string \<Rightarrow> int option) \<Rightarrow> sim \<Rightarrow> int" where
  "fallbackCount parseInt10 s =
     (case countInput s of
        None \<Rightarrow> 25
      | Some str \<Rightarrow> (case parseInt10 str of None \<Rightarrow> 25 | Some k \<Rightarrow> if k = 0 then 25 else k))"

definition resetScene ::
  "(string \<Rightarrow> int option) \<Rightarrow> (real \<Rightarrow> string) \<Rightarrow> (nat \<Rightarrow> real) \<Rightarrow> newCount \<Rightarrow> sim \<Rightarrow> sim" where
  "resetScene parseInt10 toText rnd newCount s =
     (let s1 = clearQueues (s\<lparr>agents := []\<rparr>);
          s2 = (case newCount of
                  Number v \<Rightarrow>
                    s1\<lparr>agentCount := max 1 v,
                       countInput := (case countInput s1 of
                                        None \<Rightarrow> None
                                      | Some _ \<Rightarrow> Some (toText (max 1 v)))\<rparr>
                | _ \<Rightarrow> s1\<lparr>agentCount := real_of_int (fallbackCount parseInt10 s1)\<rparr>);
          s3 = (if loadedGltfModel s2 then spawnAgents rnd (agentCount s2) s2 else s2)
      in s3\<lparr>isPaused := False\<rparr>)"


section \<open>Departments of the baseline layout\<close>

text \<open>
  \<open>calculatePortalData\<close>, which \<open>createSingleDepartment\<close> calls for the entry and the
  exit portal of each department: a new portal is free and its queue is empty.
\<close>

datatype face = XPlus | XMinus | ZPlus | ZMinus

definition calculatePortalData :: "face \<Rightarrow> real \<Rightarrow> real \<Rightarrow> vec3 \<Rightarrow> vec3 \<Rightarrow> real \<Rightarrow> portal" where
  "calculatePortalData fc w offset deptPos halfSize floorY =
     (let base = Vector3 (vec_x deptPos) floorY (vec_z deptPos) in
      \<lparr>center = base,
       width = w,
       faceNormal = (case fc of XPlus \<Rightarrow> Vector3 1 0 0 | XMinus \<Rightarrow> Vector3 (- 1) 0 0
                     | ZPlus \<Rightarrow> Vector3 0 0 1 | ZMinus \<Rightarrow> Vector3 0 0 (- 1)),
       worldPos = (case fc of
                     XPlus \<Rightarrow> Vector3 (vec_x base + vec_x halfSize) floorY (vec_z base + offset)
                   | XMinus \<Rightarrow> Vector3 (vec_x base - vec_x halfSize) floorY (vec_z base + offset)
                   | ZPlus \<Rightarrow> Vector3 (vec_x base + offset) floorY (vec_z base + vec_z halfSize)
                   | ZMinus \<Rightarrow> Vector3 (vec_x base + offset) floorY (vec_z base - vec_z halfSize)),
       offsetAxis = (case fc of XPlus \<Rightarrow> AxisZ | XMinus \<Rightarrow> AxisZ | ZPlus \<Rightarrow> AxisX | ZMinus \<Rightarrow> AxisX),
       isOccupied = False,
       queue = []\<rparr>)"

text \<open>
  The department "Produce" of the baseline layout alone, on a floor at height 0, with no
  agents yet; the store holds the two portals of the department at index 0 (and, as a
  default for the indices no department has, copies of its entry portal).
\<close>

definition produceEntry :: portal where
  "produceEntry =
     calculatePortalData ZMinus PORTAL_WIDTH_FACTOR (- 40) (Vector3 (- 110) 40 130)
       (Vector3 90 40 45) 0"

definition produceExit :: portal where
  "produceExit =
     calculatePortalData ZMinus PORTAL_WIDTH_FACTOR 40 (Vector3 (- 110) 40 130)
       (Vector3 90 40 45) 0"

definition produceSim :: sim where
  "produceSim =
     \<lparr>departments = [\<lparr>dept_size = (180, 80, 90), dept_position = Vector3 (- 110) 40 130\<rparr>],
      portals = (\<lambda>p. if p = (0, ExitPortal) then produceExit else produceEntry),
      agents = [],
      speed = 1,
      agentCount = 25,
      isPaused = False,
      modelBaseHeightOffset = 0,
      loadedGltfModel = True,
      countInput = None,
      rng = 0\<rparr>"

text \<open>An agent as \<open>spawnAgents\<close> creates it, at a given place and with a given velocity.\<close>

definition wanderer :: "nat \<Rightarrow> vec3 \<Rightarrow> vec3 \<Rightarrow> agent" where
  "wanderer i pos vel =
     \<lparr>agent_id = i, position = pos, velocity = vel, baseHeight = vec_y pos,
      state = WANDERING, idleTimer = 0, timeInDepartment = 0, targetDepartment = None,
      portalTarget = None, targetPosition = None, previousState = None\<rparr>"

text \<open>
  A queue with a stale entry: agent 0 wanders although it is first in the queue of the
  entry portal, agent 1 behind it waits for that portal.
\<close>

definition staleQueueSim :: sim where
  "staleQueueSim =
     produceSim
       \<lparr>portals := (portals produceSim)((0, EntryPortal) := produceEntry\<lparr>queue := [0, 1]\<rparr>),
        agents :=
          [wanderer 0 (Vector3 0 0 0) (Vector3 5 0 0),
           (wanderer 1 (Vector3 (- 150) 0 80) (Vector3 0 0 0))
             \<lparr>state := WAITING_ENTRY, targetDepartment := Some 0,
              portalTarget := Some (0, EntryPortal)\<rparr>]\<rparr>"


text \<open>The same queue without the stale entry: agent 1 is first.\<close>

definition waitingQueueSim :: sim where
  "waitingQueueSim =
     staleQueueSim
       \<lparr>portals := (portals produceSim)((0, EntryPortal) := produceEntry\<lparr>queue := [1]\<rparr>)\<rparr>"

text \<open>The simulation paused by the pause button, with the two agents of \<open>staleQueueSim\<close>.\<close>

definition pausedSim :: sim where
  "pausedSim = toggleSimulation staleQueueSim"

text \<open>
  Two wandering agents 11 units apart on the x axis, closer than
  \<open>MIN_AGENT_SEPARATION = 12\<close>, moving away from each other.
\<close>

definition collisionSim :: sim where
  "collisionSim =
     produceSim\<lparr>agents := [wanderer 0 (Vector3 11 0 0) (Vector3 2.5 0 0),
                            wanderer 1 (Vector3 0 0 0) (Vector3 (- 2.5) 0 0)]\<rparr>"

text \<open>The count input of the page holding the text "-3".\<close>

definition negativeInputSim :: sim where
  "negativeInputSim = produceSim\<lparr>countInput := Some ''-3''\<rparr>"

text \<open>
  What the fallback leaves of an agent's goal: the state \<open>WANDERING\<close> and no target.
\<close>

definition cleared :: "agent \<Rightarrow> bool" where
  "cleared a = (state a = WANDERING \<and> targetDepartment a = None \<and> portalTarget a = None
     \<and> targetPosition a = None)"


text \<open>
  An agent that is crossing the entry portal of the department, which it occupies, but
  has been pushed past the floor boundary at x = 396.
\<close>

definition bounceSim :: sim where
  "bounceSim =
     produceSim
       \<lparr>portals := (portals produceSim)((0, EntryPortal) := produceEntry\<lparr>isOccupied := True\<rparr>),
        agents :=
          [(wanderer 0 (Vector3 397 0 0) (Vector3 0 0 6.4))
             \<lparr>state := ENTERING, targetDepartment := Some 0,
              portalTarget := Some (0, EntryPortal)\<rparr>]\<rparr>"




section \<open>Invariants and reachable states\<close>

text \<open>Every agent stands at its floor height.\<close>

definition pinned :: "sim \<Rightarrow> bool" where
  "pinned s = list_all (\<lambda>a. vec_y (position a) = baseHeight a) (agents s)"

text \<open>
  The states a running simulation can be in. \<open>createDepartments\<close> leaves every portal
  free with an empty queue, and \<open>initScene\<close> then spawns the agents; from there on the
  state changes by frames of \<open>animate\<close>, whatever the time step, the random numbers and
  the rays are, by the pause button and by the speed slider.
\<close>

definition initialPortals :: "sim \<Rightarrow> bool" where
  "initialPortals s = (\<forall>p. \<not> isOccupied (portals s p) \<and> queue (portals s p) = [])"

inductive reachable :: "sim \<Rightarrow> bool" where
  spawn: "loadedGltfModel s0 \<Longrightarrow> initialPortals s0 \<Longrightarrow> reachable (spawnAgents rnd n s0)"
| tick: "reachable s \<Longrightarrow> animate rc rnd delta s = Inr s' \<Longrightarrow> reachable s'"
| pause: "reachable s \<Longrightarrow> reachable (toggleSimulation s)"
| slider: "reachable s \<Longrightarrow> reachable (s\<lparr>speed := v\<rparr>)"

text \<open>
  The portal protocol. An agent holds a portal when it is in the transit state of the
  portal's role with that portal as its target.
\<close>

definition holdsPortal :: "sim \<Rightarrow> nat \<Rightarrow> portal_ref \<Rightarrow> bool" where
  "holdsPortal s i p =
     (i < length (agents s) \<and> state (agents s ! i) = transitState (snd p)
      \<and> portalTarget (agents s ! i) = Some p)"

definition isWaiting :: "AGENT_STATE \<Rightarrow> bool" where
  "isWaiting st = (st = WAITING_ENTRY \<or> st = WAITING_EXIT)"

definition isTransit :: "AGENT_STATE \<Rightarrow> bool" where
  "isTransit st = (st = ENTERING \<or> st = EXITING)"

text \<open>The role of the portal that an agent in a given state is concerned with.\<close>

fun roleOf :: "AGENT_STATE \<Rightarrow> portal_role option" where
  "roleOf GOING_TO_DEPT = Some EntryPortal"
| "roleOf WAITING_ENTRY = Some EntryPortal"
| "roleOf ENTERING = Some EntryPortal"
| "roleOf GOING_TO_EXIT = Some ExitPortal"
| "roleOf WAITING_EXIT = Some ExitPortal"
| "roleOf EXITING = Some ExitPortal"
| "roleOf WANDERING = None"
| "roleOf INSIDE_DEPT = None"
| "roleOf IDLE = None"

text \<open>
  What holds of every agent of a reachable state: its portal target has the role its
  state asks for; crossing a portal or being inside a department, it has a target
  department; idle, it will resume wandering or its stay inside; and its target
  department is one of the list.
\<close>

definition agentOk :: "sim \<Rightarrow> agent \<Rightarrow> bool" where
  "agentOk s a =
     ((\<forall>p r. roleOf (state a) = Some r \<and> portalTarget a = Some p \<longrightarrow> snd p = r)
      \<and> (isTransit (state a) \<and> portalTarget a \<noteq> None \<longrightarrow> targetDepartment a \<noteq> None)
      \<and> (state a = INSIDE_DEPT \<longrightarrow> targetDepartment a \<noteq> None)
      \<and> (state a = IDLE \<longrightarrow>
            previousState a = None \<or> previousState a = Some WANDERING
            \<or> (previousState a = Some INSIDE_DEPT \<and> targetDepartment a \<noteq> None))
      \<and> (\<forall>d. targetDepartment a = Some d \<longrightarrow> d < length (departments s)))"

definition agentsOk :: "sim \<Rightarrow> bool" where
  "agentsOk s = (\<forall>i < length (agents s). agentOk s (agents s ! i))"

text \<open>
  The queue of a portal holds each agent once, and only agents that wait for this
  portal.
\<close>

definition queuesOk :: "sim \<Rightarrow> bool" where
  "queuesOk s =
     (\<forall>p. distinct (queue (portals s p))
        \<and> (\<forall>i \<in> set (queue (portals s p)).
              i < length (agents s)
              \<and> state (agents s ! i) = waitingState (snd p)
              \<and> portalTarget (agents s ! i) = Some p
              \<and> targetDepartment (agents s ! i) \<noteq> None))"

text \<open>An occupied portal has a holder, a free portal has none, and no portal has two.\<close>

definition occupancyOk :: "sim \<Rightarrow> bool" where
  "occupancyOk s =
     (\<forall>p. (isOccupied (portals s p) \<longrightarrow> (\<exists>i. holdsPortal s i p))
        \<and> (\<not> isOccupied (portals s p) \<longrightarrow> (\<forall>i. \<not> holdsPortal s i p))
        \<and> (\<forall>i j. holdsPortal s i p \<and> holdsPortal s j p \<longrightarrow> i = j))"

definition Inv :: "sim \<Rightarrow> bool" where
  "Inv s = (agentsOk s \<and> queuesOk s \<and> occupancyOk s)"

text \<open>After the state machine a waiting agent stands still.\<close>

definition calm :: "sim \<Rightarrow> nat \<Rightarrow> bool" where
  "calm s i = (isWaiting (state (agents s ! i)) \<longrightarrow> velocity (agents s ! i) = Vector3 0 0 0)"

text \<open>
  A run of the simulation that leads to a waiting agent. The draws of \<open>portalDraws\<close>
  make \<open>spawnAgents\<close> put every agent at the entry portal of the department, standing
  still (\<open>spawnedSim\<close>). In a first frame agents 1 and 2 decide to visit the department
  (\<open>headingSim\<close>). In a second frame, of two seconds, agent 0 decides to visit it too,
  agent 1 finds the portal free, takes it and walks in, and agent 2 finds it occupied
  and joins the queue (\<open>arrivalSim\<close>).
\<close>

definition portalDraws :: "nat \<Rightarrow> real" where
  "portalDraws n = (if n mod 5 = 0 then 9 / 13 else if n mod 5 = 1 then 31 / 96 else 1 / 2)"

definition spawnedSim :: sim where
  "spawnedSim =
     produceSim
       \<lparr>agents := [wanderer 0 (Vector3 (- 150) 0 85) (Vector3 0 0 0),
                   wanderer 1 (Vector3 (- 150) 0 85) (Vector3 0 0 0),
                   wanderer 2 (Vector3 (- 150) 0 85) (Vector3 0 0 0)],
        rng := 15\<rparr>"

definition headingSim :: sim where
  "headingSim =
     produceSim
       \<lparr>agents := [wanderer 0 (Vector3 (- 150) 0 85) (Vector3 0 0 0),
                   (wanderer 1 (Vector3 (- 150) 0 85) (Vector3 0 0 0))
                     \<lparr>state := GOING_TO_DEPT, targetDepartment := Some 0,
                      portalTarget := Some (0, EntryPortal)\<rparr>,
                   (wanderer 2 (Vector3 (- 150) 0 85) (Vector3 0 0 0))
                     \<lparr>state := GOING_TO_DEPT, targetDepartment := Some 0,
                      portalTarget := Some (0, EntryPortal)\<rparr>],
        rng := 21\<rparr>"

definition arrivalSim :: sim where
  "arrivalSim =
     produceSim
       \<lparr>portals := (portals produceSim)
          ((0, EntryPortal) := produceEntry\<lparr>queue := [2], isOccupied := True\<rparr>),
        agents := [(wanderer 0 (Vector3 (- 150) 0 85) (Vector3 0 0 0))
                     \<lparr>state := GOING_TO_DEPT, targetDepartment := Some 0,
                      portalTarget := Some (0, EntryPortal)\<rparr>,
                   (wanderer 1 (Vector3 (- 150) 0 97.8) (Vector3 0 0 6.4))
                     \<lparr>state := ENTERING, targetDepartment := Some 0,
                      portalTarget := Some (0, EntryPortal)\<rparr>,
                   (wanderer 2 (Vector3 (- 150) 0 85) (Vector3 0 0 0))
                     \<lparr>state := WAITING_ENTRY, targetDepartment := Some 0,
                      portalTarget := Some (0, EntryPortal)\<rparr>],
        rng := 23\<rparr>"

section \<open>Basic facts about the store\<close>

lemma agentAt_setPortal [simp]: "agentAt (setPortal p c s) i = agentAt s i"
  by (simp add: agentAt_def setPortal_def)

lemma portals_setPortal [simp]:
  "portals (setPortal p c s) q = (if q = p then c else portals s q)"
  by (simp add: setPortal_def)

lemma portals_setAgent [simp]: "portals (setAgent i a s) = portals s"
  by (simp add: setAgent_def)

lemma agents_setPortal [simp]: "agents (setPortal p c s) = agents s"
  by (simp add: setPortal_def)

lemma agents_setAgent [simp]: "agents (setAgent i a s) = (agents s)[i := a]"
  by (simp add: setAgent_def)

lemma departments_setPortal [simp]: "departments (setPortal p c s) = departments s"
  by (simp add: setPortal_def)

lemma departments_setAgent [simp]: "departments (setAgent i a s) = departments s"
  by (simp add: setAgent_def)

text \<open>The two portals of the department of the baseline layout.\<close>

lemma produceEntry_eval:
  "produceEntry = \<lparr>center = Vector3 (- 110) 0 130, width = PORTAL_WIDTH_FACTOR,
      faceNormal = Vector3 0 0 (- 1), worldPos = Vector3 (- 150) 0 85, offsetAxis = AxisX,
      isOccupied = False, queue = []\<rparr>"
  by (simp add: produceEntry_def calculatePortalData_def Let_def Vector3_def)

lemma produceExit_eval:
  "produceExit = \<lparr>center = Vector3 (- 110) 0 130, width = PORTAL_WIDTH_FACTOR,
      faceNormal = Vector3 0 0 (- 1), worldPos = Vector3 (- 70) 0 85, offsetAxis = AxisX,
      isOccupied = False, queue = []\<rparr>"
  by (simp add: produceExit_def calculatePortalData_def Let_def Vector3_def)

section \<open>Processing a portal queue\<close>

text \<open>
  C3, as the code has it. When the portal \<open>(d, r)\<close> is free and agent \<open>i\<close> is first in
  its queue, the block of \<open>processPortalQueues\<close> for that portal removes the entry. An
  agent in the waiting state of the role goes to the transit state with the velocity
  through the portal, and the portal is occupied for it. Any other agent is set to
  \<open>WANDERING\<close>, and the block stops there: the portal stays free, the rest of the queue
  stays as it is and no other agent changes.
\<close>

theorem checkQueue_front:
  assumes "\<not> isOccupied (portals s (d, r))"
    and "queue (portals s (d, r)) = i # rest"
    and "agentAt s i = Some a"
  shows "queue (portals (checkQueue r d s) (d, r)) = rest
     \<and> (if state a = waitingState r
        then agents (checkQueue r d s)
               = (agents s)[i := a\<lparr>state := transitState r,
                                   velocity := passVelocity r (portals s (d, r))\<rparr>]
             \<and> isOccupied (portals (checkQueue r d s) (d, r))
        else agents (checkQueue r d s) = (agents s)[i := a\<lparr>state := WANDERING\<rparr>]
             \<and> \<not> isOccupied (portals (checkQueue r d s) (d, r)))"
  using assms by (simp add: checkQueue_def Let_def)

theorem checkQueue_front_witness:
  "\<not> isOccupied (portals waitingQueueSim (0, EntryPortal))
   \<and> queue (portals waitingQueueSim (0, EntryPortal)) = [1]
   \<and> agentAt waitingQueueSim 1 = Some (agents waitingQueueSim ! 1)
   \<and> state (agents waitingQueueSim ! 1) = WAITING_ENTRY
   \<and> queue (portals (checkQueue EntryPortal 0 waitingQueueSim) (0, EntryPortal)) = []
   \<and> state (agents (checkQueue EntryPortal 0 waitingQueueSim) ! 1) = ENTERING
   \<and> velocity (agents (checkQueue EntryPortal 0 waitingQueueSim) ! 1) = Vector3 0 0 6.4
   \<and> isOccupied (portals (checkQueue EntryPortal 0 waitingQueueSim) (0, EntryPortal))"
proof -
  have h1: "\<not> isOccupied (portals waitingQueueSim (0, EntryPortal))"
    by (simp add: waitingQueueSim_def staleQueueSim_def produceSim_def produceEntry_def
        calculatePortalData_def Let_def)
  have h2: "queue (portals waitingQueueSim (0, EntryPortal)) = [1]"
    by (simp add: waitingQueueSim_def staleQueueSim_def produceSim_def)
  have h3: "agentAt waitingQueueSim 1 = Some (agents waitingQueueSim ! 1)"
    by (simp add: agentAt_def waitingQueueSim_def staleQueueSim_def)
  have h4: "state (agents waitingQueueSim ! 1) = WAITING_ENTRY"
    by (simp add: waitingQueueSim_def staleQueueSim_def)
  have h5: "passVelocity EntryPortal (portals waitingQueueSim (0, EntryPortal)) = Vector3 0 0 6.4"
    by (simp add: waitingQueueSim_def staleQueueSim_def produceSim_def produceEntry_def
        calculatePortalData_def Let_def Vector3_def negate_def multiplyScalar_def
        AGENT_MOVE_SPEED_def MODEL_SCALE_def)
  have len: "length (agents waitingQueueSim) = 2"
    by (simp add: waitingQueueSim_def staleQueueSim_def)
  show ?thesis
    using checkQueue_front [OF h1 h2 h3] h1 h2 h3 h4 h5 len by simp
qed

text \<open>
  C3 as stated fails: in \<open>staleQueueSim\<close> the first entry of the queue is stale and a
  waiting agent is behind it. One call of \<open>processPortalQueues\<close> drops the stale entry
  and stops there: the waiting agent is still waiting, still queued, and the portal is
  still free.
\<close>

theorem processPortalQueues_stale_counterexample:
  "\<not> isOccupied (portals staleQueueSim (0, EntryPortal))
   \<and> queue (portals staleQueueSim (0, EntryPortal)) = [0, 1]
   \<and> state (agents staleQueueSim ! 0) \<noteq> WAITING_ENTRY
   \<and> state (agents staleQueueSim ! 1) = WAITING_ENTRY
   \<and> state (agents (processPortalQueues staleQueueSim) ! 0) = WANDERING
   \<and> state (agents (processPortalQueues staleQueueSim) ! 1) = WAITING_ENTRY
   \<and> queue (portals (processPortalQueues staleQueueSim) (0, EntryPortal)) = [1]
   \<and> \<not> isOccupied (portals (processPortalQueues staleQueueSim) (0, EntryPortal))"
  by (simp add: processPortalQueues_def staleQueueSim_def produceSim_def processDept_def
      checkQueue_def Let_def agentAt_def wanderer_def produceEntry_def produceExit_def
      calculatePortalData_def)


section \<open>Pausing\<close>

text \<open>
  C4. The source has no function that sets the flag: \<open>isPaused\<close> is written by
  \<open>toggleSimulation\<close> (\<open>isPaused = !isPaused\<close>) and cleared by \<open>resetScene\<close>. Setting it
  to true is the assignment to the field, which is what \<open>toggleSimulation\<close> does to a
  running simulation; doing it twice gives the state that doing it once gives. While
  the flag is set, a frame of \<open>animate\<close> (and a call of \<open>updateAgents\<close>) returns the state
  it was given, for every state and every \<open>delta\<close>: no position, velocity, state or
  timer of any agent changes.
\<close>

theorem pause_idempotent_and_frozen_tick:
  "s\<lparr>isPaused := True\<rparr>\<lparr>isPaused := True\<rparr> = s\<lparr>isPaused := True\<rparr>
   \<and> toggleSimulation (s\<lparr>isPaused := False\<rparr>) = s\<lparr>isPaused := True\<rparr>
   \<and> (isPaused s \<longrightarrow> animate rc rnd delta s = Inr s \<and> updateAgents rc rnd delta s = Inr s)"
  by (simp add: toggleSimulation_def animate_def updateAgents_def)

theorem pause_idempotent_and_frozen_tick_witness:
  "isPaused pausedSim
   \<and> pausedSim\<lparr>isPaused := True\<rparr>\<lparr>isPaused := True\<rparr> = pausedSim
   \<and> animate (\<lambda>_ _ _ _. None) (\<lambda>_. 0) (1 / 60) pausedSim = Inr pausedSim
   \<and> updateAgents (\<lambda>_ _ _ _. None) (\<lambda>_. 0) (1 / 60) pausedSim = Inr pausedSim"
  using pause_idempotent_and_frozen_tick [of pausedSim "\<lambda>_ _ _ _. None" "\<lambda>_. 0" "1 / 60"]
  by (simp add: pausedSim_def toggleSimulation_def staleQueueSim_def produceSim_def)

section \<open>Movement integration\<close>



section \<open>The separation pass\<close>

lemma sqrt_square_eq: "0 \<le> a \<Longrightarrow> sqrt (a * a) = a"
  by simp

lemma sqrt_121: "sqrt 121 = 11"
  using sqrt_square_eq [of 11] by simp

lemma sqrt_9: "sqrt 9 = 3"
  using sqrt_square_eq [of 3] by simp

lemma agentPairs_2: "agentPairs (Suc (Suc 0)) = [(0, 1)]"
  by (simp add: agentPairs_def)

text \<open>
  C9 at a concrete pair. Agent 0 stands at x = 11 and agent 1 at x = 0, so the
  separation normal (from agent 1 to agent 0) is the x axis and the overlap is 1. The
  velocities receive the push of 0.5 along plus and minus the normal (2.5 becomes 3,
  -2.5 becomes -3) and y stays at the floor height. The positions, however, move
  towards each other, by 0.255 = (overlap * 0.5) * (overlap / 2 + 0.01) each: the nudge
  uses \<open>collisionNormal\<close> after \<open>negate()\<close> and \<open>multiplyScalar(pushFactor)\<close> have
  changed it in place. Nudged apart by half the overlap plus 0.01, the agents would be
  at 11.51 and -0.51.
\<close>

theorem handleAgentAgentCollisions_nudge_evaluation:
  "agents (handleAgentAgentCollisions collisionSim) =
     [wanderer 0 (Vector3 10.745 0 0) (Vector3 3 0 0),
      wanderer 1 (Vector3 0.255 0 0) (Vector3 (- 3) 0 0)]"
proof -
  have "agents (handleAgentAgentCollisions collisionSim)
        = agents (collidePair collisionSim (0, 1))"
    by (simp add: handleAgentAgentCollisions_def collisionSim_def agentPairs_2)
  also have "\<dots> = [wanderer 0 (Vector3 10.745 0 0) (Vector3 3 0 0),
                   wanderer 1 (Vector3 0.255 0 0) (Vector3 (- 3) 0 0)]"
    by (simp add: collisionSim_def produceSim_def collidePair_def Let_def wanderer_def
        distanceToSquared_def lengthSq_def dot_def sub_def Vector3_def
        MIN_AGENT_SEPARATION_def MODEL_SCALE_def sqrt_121 normalize_def vlength_def
        divideScalar_def multiplyScalar_def add_def negate_def clampLength_def
        AGENT_MOVE_SPEED_def sqrt_9)
  finally show ?thesis .
qed

section \<open>Spawning and resetting the population\<close>

lemma agents_bump [simp]: "agents (bump k s) = agents s"
  by (simp add: bump_def)

lemma agents_spawnOne:
  "\<exists>a. agents (spawnOne rnd i s) = agents s @ [a] \<and> agent_id a = i \<and> state a = WANDERING
       \<and> targetDepartment a = None \<and> portalTarget a = None \<and> targetPosition a = None
       \<and> vec_y (position a) = baseHeight a"
  by (simp add: spawnOne_def Let_def Vector3_def)

lemma spawnLoop_ids:
  "map agent_id (agents (spawnLoop rnd n i s))
     = map agent_id (agents s) @ [i..<i + nat \<lceil>n - real i\<rceil>]"
proof (induction rnd n i s rule: spawnLoop.induct)
  case (1 rnd n i s)
  show ?case
  proof (cases "real i < n")
    case True
    obtain a where a: "agents (spawnOne rnd i s) = agents s @ [a]" "agent_id a = i"
      using agents_spawnOne by blast
    define k where "k = nat \<lceil>n - real (Suc i)\<rceil>"
    have c: "nat \<lceil>n - real i\<rceil> = Suc k"
      unfolding k_def using True by (simp add: nat_eq_iff) linarith
    have u: "[i..<i + Suc k] = [i] @ [Suc i..<Suc i + k]"
      by (simp add: upt_rec)
    have "map agent_id (agents (spawnLoop rnd n i s))
          = map agent_id (agents (spawnLoop rnd n (Suc i) (spawnOne rnd i s)))"
      using True by (subst spawnLoop.simps) simp
    also have "\<dots> = map agent_id (agents s) @ [i] @ [Suc i..<Suc i + k]"
      using "1.IH" [OF True] a unfolding k_def by simp
    also have "\<dots> = map agent_id (agents s) @ [i..<i + nat \<lceil>n - real i\<rceil>]"
      unfolding c u by simp
    finally show ?thesis .
  next
    case False
    then have "nat \<lceil>n - real i\<rceil> = 0" by (simp add: ceiling_le_zero)
    with False show ?thesis by (subst spawnLoop.simps) simp
  qed
qed


lemma spawnOne_frame:
  "agentCount (spawnOne rnd i s) = agentCount s"
  "departments (spawnOne rnd i s) = departments s"
  "portals (spawnOne rnd i s) = portals s"
  "isPaused (spawnOne rnd i s) = isPaused s"
  by (simp_all add: spawnOne_def Let_def bump_def)

lemma spawnLoop_frame:
  "agentCount (spawnLoop rnd n i s) = agentCount s
   \<and> departments (spawnLoop rnd n i s) = departments s
   \<and> portals (spawnLoop rnd n i s) = portals s
   \<and> isPaused (spawnLoop rnd n i s) = isPaused s"
proof (induction rnd n i s rule: spawnLoop.induct)
  case (1 rnd n i s)
  show ?case
  proof (cases "real i < n")
    case True
    have "spawnLoop rnd n i s = spawnLoop rnd n (Suc i) (spawnOne rnd i s)"
      using True by (subst spawnLoop.simps) simp
    then show ?thesis using "1.IH" [OF True] by (simp add: spawnOne_frame)
  next
    case False
    then have "spawnLoop rnd n i s = s" by (subst spawnLoop.simps) simp
    then show ?thesis by simp
  qed
qed

lemma spawnAgents_ids:
  "loadedGltfModel s \<Longrightarrow> map agent_id (agents (spawnAgents rnd n s)) = [0..<nat \<lceil>n\<rceil>]"
  using spawnLoop_ids [of rnd n 0 "s\<lparr>agents := []\<rparr>"] by (simp add: spawnAgents_def)

lemma spawnAgents_frame:
  "agentCount (spawnAgents rnd n s) = agentCount s
   \<and> departments (spawnAgents rnd n s) = departments s
   \<and> portals (spawnAgents rnd n s) = portals s"
  using spawnLoop_frame [of rnd n 0 "s\<lparr>agents := []\<rparr>"] by (simp add: spawnAgents_def)

lemma resetScene_agentCount:
  "agentCount (resetScene parseInt10 toText rnd newCount s) =
     (case newCount of Number v \<Rightarrow> max 1 v | _ \<Rightarrow> real_of_int (fallbackCount parseInt10 s))"
  by (simp add: resetScene_def Let_def clearQueues_def spawnAgents_frame fallbackCount_def
      split: newCount.splits)

lemma resetScene_ids:
  "loadedGltfModel s \<Longrightarrow>
   map agent_id (agents (resetScene parseInt10 toText rnd newCount s))
     = [0..<nat \<lceil>agentCount (resetScene parseInt10 toText rnd newCount s)\<rceil>]"
  unfolding resetScene_agentCount
  by (simp add: resetScene_def Let_def clearQueues_def spawnAgents_ids fallbackCount_def
      split: newCount.splits option.splits)

lemma resetScene_length:
  "loadedGltfModel s \<Longrightarrow>
   length (agents (resetScene parseInt10 toText rnd newCount s))
     = nat \<lceil>agentCount (resetScene parseInt10 toText rnd newCount s)\<rceil>"
proof -
  assume "loadedGltfModel s"
  then have "length (map agent_id (agents (resetScene parseInt10 toText rnd newCount s)))
      = length [0..<nat \<lceil>agentCount (resetScene parseInt10 toText rnd newCount s)\<rceil>]"
    by (simp only: resetScene_ids)
  then show ?thesis by simp
qed

lemma resetScene_forgets:
  "resetScene parseInt10 toText rnd newCount (s\<lparr>agents := xs\<rparr>)
     = resetScene parseInt10 toText rnd newCount s"
  by (simp add: resetScene_def Let_def clearQueues_def spawnAgents_def)

text \<open>
  C10, as the code has it, for a loaded avatar model. For a whole number \<open>n\<close> as
  argument, \<open>resetScene\<close> sets the count to \<open>max 1 n\<close> and spawns exactly that many
  agents. For \<open>undefined\<close> or \<open>NaN\<close> the count is 25 when the page has no count input
  or when the text of the input parses to \<open>NaN\<close> or to 0, and it is the parsed number
  \<open>k\<close> when that is at least 1; exactly that many agents are spawned. In every case the
  agents are numbered from 0 and none of the previous agents survives: the result does
  not depend on the agents before the reset.
\<close>

theorem resetScene_population:
  assumes "loadedGltfModel s"
  shows "(\<forall>n::int. newCount = Number (real_of_int n) \<longrightarrow>
            agentCount (resetScene parseInt10 toText rnd newCount s) = real_of_int (max 1 n)
            \<and> length (agents (resetScene parseInt10 toText rnd newCount s)) = nat (max 1 n))
       \<and> (newCount = Undefined \<or> newCount = NaN \<longrightarrow>
            (countInput s = None \<longrightarrow>
               agentCount (resetScene parseInt10 toText rnd newCount s) = 25
               \<and> length (agents (resetScene parseInt10 toText rnd newCount s)) = 25)
          \<and> (\<forall>str. countInput s = Some str \<longrightarrow>
               (parseInt10 str = None \<or> parseInt10 str = Some 0 \<longrightarrow>
                  agentCount (resetScene parseInt10 toText rnd newCount s) = 25
                  \<and> length (agents (resetScene parseInt10 toText rnd newCount s)) = 25)
             \<and> (\<forall>k. parseInt10 str = Some k \<and> 1 \<le> k \<longrightarrow>
                  agentCount (resetScene parseInt10 toText rnd newCount s) = real_of_int k
                  \<and> length (agents (resetScene parseInt10 toText rnd newCount s)) = nat k)))
       \<and> map agent_id (agents (resetScene parseInt10 toText rnd newCount s))
            = [0..<length (agents (resetScene parseInt10 toText rnd newCount s))]
       \<and> resetScene parseInt10 toText rnd newCount (s\<lparr>agents := xs\<rparr>)
            = resetScene parseInt10 toText rnd newCount s"
proof -
  let ?s' = "resetScene parseInt10 toText rnd newCount s"
  have len: "length (agents ?s') = nat \<lceil>agentCount ?s'\<rceil>"
    using assms by (rule resetScene_length)
  have ids: "map agent_id (agents ?s') = [0..<length (agents ?s')]"
    using resetScene_ids [OF assms, of parseInt10 toText rnd newCount] len by simp
  have num: "\<forall>n::int. newCount = Number (real_of_int n) \<longrightarrow>
            agentCount ?s' = real_of_int (max 1 n) \<and> length (agents ?s') = nat (max 1 n)"
  proof (intro allI impI)
    fix n :: int
    assume nc: "newCount = Number (real_of_int n)"
    have ac: "agentCount ?s' = real_of_int (max 1 n)"
      by (simp add: resetScene_agentCount nc max_def)
    show "agentCount ?s' = real_of_int (max 1 n) \<and> length (agents ?s') = nat (max 1 n)"
      using len ac by simp
  qed
  have fb: "newCount = Undefined \<or> newCount = NaN \<longrightarrow>
            (countInput s = None \<longrightarrow> agentCount ?s' = 25 \<and> length (agents ?s') = 25)
          \<and> (\<forall>str. countInput s = Some str \<longrightarrow>
               (parseInt10 str = None \<or> parseInt10 str = Some 0 \<longrightarrow>
                  agentCount ?s' = 25 \<and> length (agents ?s') = 25)
             \<and> (\<forall>k. parseInt10 str = Some k \<and> 1 \<le> k \<longrightarrow>
                  agentCount ?s' = real_of_int k \<and> length (agents ?s') = nat k))"
  proof
    assume nc: "newCount = Undefined \<or> newCount = NaN"
    have ac: "agentCount ?s' = real_of_int (fallbackCount parseInt10 s)"
      using nc by (auto simp: resetScene_agentCount)
    have l: "length (agents ?s') = nat (fallbackCount parseInt10 s)"
      using len ac by simp
    show "(countInput s = None \<longrightarrow> agentCount ?s' = 25 \<and> length (agents ?s') = 25)
          \<and> (\<forall>str. countInput s = Some str \<longrightarrow>
               (parseInt10 str = None \<or> parseInt10 str = Some 0 \<longrightarrow>
                  agentCount ?s' = 25 \<and> length (agents ?s') = 25)
             \<and> (\<forall>k. parseInt10 str = Some k \<and> 1 \<le> k \<longrightarrow>
                  agentCount ?s' = real_of_int k \<and> length (agents ?s') = nat k))"
      unfolding ac l by (auto simp: fallbackCount_def)
  qed
  show ?thesis
    by (intro conjI) (rule num, rule fb, rule ids, rule resetScene_forgets)
qed

theorem resetScene_population_witness:
  "loadedGltfModel staleQueueSim
   \<and> length (agents staleQueueSim) = 2
   \<and> length (agents (resetScene (\<lambda>_. None) (\<lambda>_. []) (\<lambda>_. 0) (Number 0) staleQueueSim)) = 1
   \<and> agentCount (resetScene (\<lambda>_. None) (\<lambda>_. []) (\<lambda>_. 0) (Number 0) staleQueueSim) = 1
   \<and> countInput staleQueueSim = None
   \<and> length (agents (resetScene (\<lambda>_. None) (\<lambda>_. []) (\<lambda>_. 0) Undefined staleQueueSim)) = 25
   \<and> loadedGltfModel (staleQueueSim\<lparr>countInput := Some ''7''\<rparr>)
   \<and> length (agents (resetScene (\<lambda>str. if str = ''7'' then Some 7 else None) (\<lambda>_. [])
        (\<lambda>_. 0) Undefined (staleQueueSim\<lparr>countInput := Some ''7''\<rparr>))) = 7
   \<and> length (agents (resetScene (\<lambda>str. if str = ''7'' then Some 7 else None) (\<lambda>_. [])
        (\<lambda>_. 0) NaN (staleQueueSim\<lparr>countInput := Some ''abc''\<rparr>))) = 25"
proof -
  let ?p = "\<lambda>str. if str = ''7'' then Some (7 :: int) else None"
  let ?s7 = "staleQueueSim\<lparr>countInput := Some ''7''\<rparr>"
  let ?sa = "staleQueueSim\<lparr>countInput := Some ''abc''\<rparr>"
  have h: "loadedGltfModel staleQueueSim"
    by (simp add: staleQueueSim_def produceSim_def)
  have h7: "loadedGltfModel ?s7" and ha: "loadedGltfModel ?sa" using h by simp_all
  have l: "length (agents staleQueueSim) = 2"
    by (simp add: staleQueueSim_def)
  have c: "countInput staleQueueSim = None"
    by (simp add: staleQueueSim_def produceSim_def)
  have n0: "length (agents (resetScene (\<lambda>_. None) (\<lambda>_. []) (\<lambda>_. 0) (Number 0) staleQueueSim)) = 1
     \<and> agentCount (resetScene (\<lambda>_. None) (\<lambda>_. []) (\<lambda>_. 0) (Number 0) staleQueueSim) = 1"
    using resetScene_population [OF h, of "Number 0" "\<lambda>_. None" "\<lambda>_. []" "\<lambda>_. 0"]
    by (auto dest: spec [of _ "0 :: int"])
  have u: "length (agents (resetScene (\<lambda>_. None) (\<lambda>_. []) (\<lambda>_. 0) Undefined staleQueueSim)) = 25"
    using resetScene_population [OF h, of Undefined "\<lambda>_. None" "\<lambda>_. []" "\<lambda>_. 0"] c
    by simp
  have u7: "length (agents (resetScene ?p (\<lambda>_. []) (\<lambda>_. 0) Undefined ?s7)) = 7"
    using resetScene_population [OF h7, of Undefined ?p "\<lambda>_. []" "\<lambda>_. 0"]
    by simp
  have ua: "length (agents (resetScene ?p (\<lambda>_. []) (\<lambda>_. 0) NaN ?sa)) = 25"
    using resetScene_population [OF ha, of NaN ?p "\<lambda>_. []" "\<lambda>_. 0"]
    by simp
  show ?thesis using h h7 l c n0 u u7 ua by blast
qed

text \<open>
  C10 as stated fails for a number that is not whole: with 2.5 as argument the count is
  2.5 and the loop \<open>for (i = 0; i < n; i++)\<close> spawns 3 agents. It also fails while the
  avatar model is not loaded: \<open>resetScene\<close> then sets the count and spawns nobody.
\<close>

theorem resetScene_fraction_counterexample:
  "agentCount (resetScene (\<lambda>_. None) (\<lambda>_. []) (\<lambda>_. 0) (Number 2.5) produceSim) = 2.5
   \<and> length (agents (resetScene (\<lambda>_. None) (\<lambda>_. []) (\<lambda>_. 0) (Number 2.5) produceSim)) = 3
   \<and> agentCount (resetScene (\<lambda>_. None) (\<lambda>_. []) (\<lambda>_. 0) (Number 5)
        (produceSim\<lparr>loadedGltfModel := False\<rparr>)) = 5
   \<and> length (agents (resetScene (\<lambda>_. None) (\<lambda>_. []) (\<lambda>_. 0) (Number 5)
        (produceSim\<lparr>loadedGltfModel := False\<rparr>))) = 0"
proof -
  have l2: "loadedGltfModel produceSim"
    by (simp_all add: produceSim_def)
  have a2: "agentCount (resetScene (\<lambda>_. None) (\<lambda>_. []) (\<lambda>_. 0) (Number 2.5) produceSim) = 2.5"
    by (simp add: resetScene_agentCount)
  have c: "\<lceil>5 / 2 :: real\<rceil> = 3" by (simp add: ceiling_eq_iff)
  have n2: "length (agents (resetScene (\<lambda>_. None) (\<lambda>_. []) (\<lambda>_. 0) (Number 2.5) produceSim)) = 3"
    unfolding resetScene_length [OF l2] a2 using c by simp
  have a3: "agentCount (resetScene (\<lambda>_. None) (\<lambda>_. []) (\<lambda>_. 0) (Number 5)
        (produceSim\<lparr>loadedGltfModel := False\<rparr>)) = 5"
    by (simp add: resetScene_agentCount)
  have n3: "length (agents (resetScene (\<lambda>_. None) (\<lambda>_. []) (\<lambda>_. 0) (Number 5)
        (produceSim\<lparr>loadedGltfModel := False\<rparr>))) = 0"
    by (simp add: resetScene_def Let_def clearQueues_def)
  show ?thesis using a2 n2 a3 n3 by blast
qed

text \<open>
  The fallback branch has no \<open>Math.max(1, .)\<close>: with the text "-3" in the count input,
  a reset without argument sets the count to -3 and spawns no agent.
\<close>

lemma resetScene_negative_input:
  "agentCount (resetScene (\<lambda>_. Some (- 3)) (\<lambda>_. []) (\<lambda>_. 0) Undefined negativeInputSim) = - 3
   \<and> length (agents (resetScene (\<lambda>_. Some (- 3)) (\<lambda>_. []) (\<lambda>_. 0) Undefined negativeInputSim)) = 0"
proof -
  have l1: "loadedGltfModel negativeInputSim"
    by (simp_all add: negativeInputSim_def produceSim_def)
  have a1: "agentCount (resetScene (\<lambda>_. Some (- 3)) (\<lambda>_. []) (\<lambda>_. 0) Undefined negativeInputSim) = - 3"
    by (simp add: resetScene_agentCount fallbackCount_def negativeInputSim_def)
  have n1: "length (agents (resetScene (\<lambda>_. Some (- 3)) (\<lambda>_. []) (\<lambda>_. 0) Undefined negativeInputSim)) = 0"
    unfolding resetScene_length [OF l1] a1 by simp
  show ?thesis using a1 n1 by blast
qed

section \<open>The floor boundary\<close>

text \<open>An agent that wanders without targets keeps doing so through the wall checks.\<close>

lemma releaseClaimed_agents [simp]: "agents (releaseClaimed a s) = agents s"
  by (simp add: releaseClaimed_def split: option.splits)

lemma releaseClaimed_departments [simp]: "departments (releaseClaimed a s) = departments s"
  by (simp add: releaseClaimed_def split: option.splits)

lemma targetPortalOf_WANDERING: "state a = WANDERING \<Longrightarrow> targetPortalOf a d = None"
  by (simp add: targetPortalOf_def)

lemma deptCollision_cleared:
  assumes "i < length (agents s)" and "cleared (agents s ! i)"
  shows "cleared (agents (deptCollision rc origin direction far i s d) ! i)
     \<and> portals (deptCollision rc origin direction far i s d) = portals s
     \<and> length (agents (deptCollision rc origin direction far i s d)) = length (agents s)"
  using assms
  by (simp add: deptCollision_def Let_def cleared_def targetPortalOf_WANDERING
      split: option.splits prod.splits)

lemma foldl_deptCollision_cleared:
  assumes "i < length (agents s)" and "cleared (agents s ! i)"
  shows "cleared (agents (foldl (deptCollision rc origin direction far i) s ds) ! i)
     \<and> portals (foldl (deptCollision rc origin direction far i) s ds) = portals s"
  using assms
proof (induction ds arbitrary: s)
  case Nil
  then show ?case by simp
next
  case (Cons d ds)
  have step: "cleared (agents (deptCollision rc origin direction far i s d) ! i)
     \<and> portals (deptCollision rc origin direction far i s d) = portals s
     \<and> length (agents (deptCollision rc origin direction far i s d)) = length (agents s)"
    using Cons.prems by (rule deptCollision_cleared)
  then show ?case using Cons.IH [of "deptCollision rc origin direction far i s d"] Cons.prems
    by simp
qed

lemma floorBoundary_reset:
  assumes "i < length (agents s)"
    and "inTransitGoal (state (agents s ! i))"
    and "bouncesX (agents s ! i) \<or> bouncesZ (agents s ! i)"
  shows "cleared (agents (floorBoundary i s) ! i)
     \<and> length (agents (floorBoundary i s)) = length (agents s)
     \<and> portals (floorBoundary i s) = portals (releaseClaimed (agents s ! i) s)"
  using assms
  by (auto simp: floorBoundary_def Let_def cleared_def bouncesZ_def bouncesX_def releaseClaimed_def
      split: option.splits)

text \<open>
  C5. When the floor-boundary check of \<open>handleAgentEnvironmentCollisions\<close> bounces an
  agent that is in \<open>GOING_TO_DEPT\<close>, \<open>ENTERING\<close>, \<open>GOING_TO_EXIT\<close> or \<open>EXITING\<close>,
  the agent leaves the function (floor check and wall checks, whatever the rays hit) in
  \<open>WANDERING\<close> with its target department, portal and position cleared; the portal
  it was crossing is free afterwards, and no other portal has changed.
\<close>

theorem floor_bounce_fallback:
  assumes "i < length (agents s)"
    and "inTransitGoal (state (agents s ! i))"
    and "bouncesX (agents s ! i) \<or> bouncesZ (agents s ! i)"
  shows "state (agents (handleAgentEnvironmentCollisions rc f i s) ! i) = WANDERING
     \<and> targetDepartment (agents (handleAgentEnvironmentCollisions rc f i s) ! i) = None
     \<and> portalTarget (agents (handleAgentEnvironmentCollisions rc f i s) ! i) = None
     \<and> targetPosition (agents (handleAgentEnvironmentCollisions rc f i s) ! i) = None
     \<and> (\<forall>p. portalTarget (agents s ! i) = Some p
             \<and> (state (agents s ! i) = ENTERING \<or> state (agents s ! i) = EXITING)
           \<longrightarrow> \<not> isOccupied (portals (handleAgentEnvironmentCollisions rc f i s) p))
     \<and> (\<forall>q. portalTarget (agents s ! i) \<noteq> Some q
           \<longrightarrow> portals (handleAgentEnvironmentCollisions rc f i s) q = portals s q)"
proof -
  let ?s1 = "floorBoundary i s"
  have fb: "cleared (agents ?s1 ! i)" "length (agents ?s1) = length (agents s)"
    "portals ?s1 = portals (releaseClaimed (agents s ! i) s)"
    using floorBoundary_reset [OF assms] by simp_all
  have i1: "i < length (agents ?s1)" using fb(2) assms(1) by simp
  have "cleared (agents (handleAgentEnvironmentCollisions rc f i s) ! i)
      \<and> portals (handleAgentEnvironmentCollisions rc f i s) = portals ?s1"
    using foldl_deptCollision_cleared [OF i1 fb(1)] fb(1)
    by (simp add: handleAgentEnvironmentCollisions_def Let_def)
  then show ?thesis
    unfolding fb(3) by (auto simp: cleared_def releaseClaimed_def split: option.splits)
qed


theorem floor_bounce_fallback_witness:
  "(0::nat) < length (agents bounceSim)
   \<and> state (agents bounceSim ! 0) = ENTERING
   \<and> portalTarget (agents bounceSim ! 0) = Some (0, EntryPortal)
   \<and> bouncesX (agents bounceSim ! 0)
   \<and> isOccupied (portals bounceSim (0, EntryPortal))
   \<and> state (agents (handleAgentEnvironmentCollisions (\<lambda>_ _ _ _. None) (1 / 60) 0 bounceSim) ! 0)
       = WANDERING
   \<and> portalTarget (agents (handleAgentEnvironmentCollisions (\<lambda>_ _ _ _. None) (1 / 60) 0 bounceSim) ! 0)
       = None
   \<and> \<not> isOccupied
         (portals (handleAgentEnvironmentCollisions (\<lambda>_ _ _ _. None) (1 / 60) 0 bounceSim)
            (0, EntryPortal))"
proof -
  have h1: "(0::nat) < length (agents bounceSim)"
    by (simp add: bounceSim_def)
  have st: "state (agents bounceSim ! 0) = ENTERING"
    and pt: "portalTarget (agents bounceSim ! 0) = Some (0, EntryPortal)"
    by (simp_all add: bounceSim_def)
  have h2: "inTransitGoal (state (agents bounceSim ! 0))"
    by (simp add: st inTransitGoal_def)
  have bx: "bouncesX (agents bounceSim ! 0)"
    by (simp add: bounceSim_def bouncesX_def wanderer_def Vector3_def MODEL_SCALE_def)
  then have h3: "bouncesX (agents bounceSim ! 0) \<or> bouncesZ (agents bounceSim ! 0)" ..
  have oc: "isOccupied (portals bounceSim (0, EntryPortal))"
    by (simp add: bounceSim_def)
  note fb = floor_bounce_fallback [OF h1 h2 h3, of "\<lambda>_ _ _ _. None" "1 / 60"]
  from fb have a: "state (agents (handleAgentEnvironmentCollisions (\<lambda>_ _ _ _. None) (1 / 60) 0 bounceSim) ! 0)
       = WANDERING" by blast
  from fb have b: "portalTarget (agents (handleAgentEnvironmentCollisions (\<lambda>_ _ _ _. None) (1 / 60) 0 bounceSim) ! 0)
       = None" by blast
  from fb st pt have c: "\<not> isOccupied
         (portals (handleAgentEnvironmentCollisions (\<lambda>_ _ _ _. None) (1 / 60) 0 bounceSim)
            (0, EntryPortal))" by blast
  show ?thesis using h1 st pt bx oc a b c by blast
qed

section \<open>What a tick leaves unchanged\<close>

lemma bump_fields [simp]:
  "departments (bump k s) = departments s"
  "portals (bump k s) = portals s"
  "isPaused (bump k s) = isPaused s"
  "speed (bump k s) = speed s"
  by (simp_all add: bump_def)

lemma setAgent_bump: "setAgent i a (bump k s) = bump k (setAgent i a s)"
  by (simp add: setAgent_def bump_def)

lemma setPortal_bump: "setPortal p c (bump k s) = bump k (setPortal p c s)"
  by (simp add: setPortal_def bump_def)

lemma releaseClaimed_frame [simp]:
  "isPaused (releaseClaimed a s) = isPaused s"
  "speed (releaseClaimed a s) = speed s"
  by (simp_all add: releaseClaimed_def setPortal_def split: option.splits)

text \<open>The number of agents and the list of departments stay as they are.\<close>

lemma caseIDLE_frame [simp]:
  "length (agents (caseIDLE rnd delta i s)) = length (agents s)"
  "departments (caseIDLE rnd delta i s) = departments s"
  by (simp_all add: caseIDLE_def Let_def split: option.splits)

lemma caseWANDERING_frame [simp]:
  "length (agents (caseWANDERING rnd delta i s)) = length (agents s)"
  "departments (caseWANDERING rnd delta i s) = departments s"
  by (simp_all add: caseWANDERING_def Let_def)

lemma caseGOING_TO_DEPT_frame [simp]:
  "length (agents (caseGOING_TO_DEPT i s)) = length (agents s)"
  "departments (caseGOING_TO_DEPT i s) = departments s"
  by (simp_all add: caseGOING_TO_DEPT_def Let_def split: option.splits)

lemma caseGOING_TO_EXIT_frame [simp]:
  "length (agents (caseGOING_TO_EXIT i s)) = length (agents s)"
  "departments (caseGOING_TO_EXIT i s) = departments s"
  by (simp_all add: caseGOING_TO_EXIT_def Let_def split: option.splits)

lemma caseEXITING_frame [simp]:
  "length (agents (caseEXITING rnd i s)) = length (agents s)"
  "departments (caseEXITING rnd i s) = departments s"
  by (simp_all add: caseEXITING_def Let_def split: option.splits)

lemma caseWAITING_frame [simp]:
  "length (agents (caseWAITING i s)) = length (agents s)"
  "departments (caseWAITING i s) = departments s"
  by (simp_all add: caseWAITING_def)

lemma caseENTERING_frame:
  "caseENTERING rnd i s = Inr s' \<Longrightarrow>
   length (agents s') = length (agents s) \<and> departments s' = departments s"
  by (auto simp: caseENTERING_def Let_def split: option.splits if_splits sum.splits prod.splits)

lemma caseINSIDE_DEPT_frame:
  "caseINSIDE_DEPT rnd delta i s = Inr s' \<Longrightarrow>
   length (agents s') = length (agents s) \<and> departments s' = departments s"
  by (auto simp: caseINSIDE_DEPT_def Let_def split: option.splits if_splits sum.splits prod.splits)

lemma updateAgentState_frame:
  "updateAgentState rnd delta i s = Inr s' \<Longrightarrow>
   length (agents s') = length (agents s) \<and> departments s' = departments s"
  by (auto simp: updateAgentState_def split: AGENT_STATE.splits
      dest: caseENTERING_frame caseINSIDE_DEPT_frame)

lemma updateAgentMovement_frame [simp]:
  "length (agents (updateAgentMovement f i s)) = length (agents s)"
  "departments (updateAgentMovement f i s) = departments s"
  "portals (updateAgentMovement f i s) = portals s"
  by (simp_all add: updateAgentMovement_def Let_def)

lemma floorBoundary_frame [simp]:
  "length (agents (floorBoundary i s)) = length (agents s)"
  "departments (floorBoundary i s) = departments s"
  by (simp_all add: floorBoundary_def Let_def)

lemma deptCollision_frame [simp]:
  "length (agents (deptCollision rc origin direction far i s d)) = length (agents s)"
  "departments (deptCollision rc origin direction far i s d) = departments s"
  by (simp_all add: deptCollision_def Let_def split: option.splits prod.splits)

lemma foldl_deptCollision_frame [simp]:
  "length (agents (foldl (deptCollision rc origin direction far i) s ds)) = length (agents s)"
  "departments (foldl (deptCollision rc origin direction far i) s ds) = departments s"
  by (induction ds arbitrary: s) simp_all

lemma handleAgentEnvironmentCollisions_frame [simp]:
  "length (agents (handleAgentEnvironmentCollisions rc f i s)) = length (agents s)"
  "departments (handleAgentEnvironmentCollisions rc f i s) = departments s"
  by (simp_all add: handleAgentEnvironmentCollisions_def Let_def)

lemma agentStep_frame:
  "agentStep rc rnd delta f i s = Inr s' \<Longrightarrow>
   length (agents s') = length (agents s) \<and> departments s' = departments s"
  by (auto simp: agentStep_def split: sum.splits dest: updateAgentState_frame)

lemma forEachAgent_frame:
  "forEachAgent rc rnd delta f is s = Inr s' \<Longrightarrow>
   length (agents s') = length (agents s) \<and> departments s' = departments s"
proof (induction "is" arbitrary: s)
  case Nil
  then show ?case by simp
next
  case (Cons i "is")
  from Cons.prems obtain s1 where s1: "agentStep rc rnd delta f i s = Inr s1"
    and rest: "forEachAgent rc rnd delta f is s1 = Inr s'"
    by (auto split: sum.splits)
  show ?case using agentStep_frame [OF s1] Cons.IH [OF rest] by simp
qed

lemma collidePair_frame [simp]:
  "length (agents (collidePair s ij)) = length (agents s)"
  "departments (collidePair s ij) = departments s"
  "portals (collidePair s ij) = portals s"
  by (simp_all add: collidePair_def Let_def)

lemma foldl_collidePair_frame [simp]:
  "length (agents (foldl collidePair s ps)) = length (agents s)"
  "departments (foldl collidePair s ps) = departments s"
  "portals (foldl collidePair s ps) = portals s"
  by (induction ps arbitrary: s) simp_all

lemma handleAgentAgentCollisions_frame [simp]:
  "length (agents (handleAgentAgentCollisions s)) = length (agents s)"
  "departments (handleAgentAgentCollisions s) = departments s"
  "portals (handleAgentAgentCollisions s) = portals s"
  by (simp_all add: handleAgentAgentCollisions_def)

lemma checkQueue_frame [simp]:
  "length (agents (checkQueue r d s)) = length (agents s)"
  "departments (checkQueue r d s) = departments s"
  by (simp_all add: checkQueue_def Let_def split: list.splits option.splits)

lemma processDept_frame [simp]:
  "length (agents (processDept s d)) = length (agents s)"
  "departments (processDept s d) = departments s"
  by (simp_all add: processDept_def)

lemma foldl_processDept_frame [simp]:
  "length (agents (foldl processDept s ds)) = length (agents s)"
  "departments (foldl processDept s ds) = departments s"
  by (induction ds arbitrary: s) simp_all

lemma processPortalQueues_frame [simp]:
  "length (agents (processPortalQueues s)) = length (agents s)"
  "departments (processPortalQueues s) = departments s"
  by (simp_all add: processPortalQueues_def)

section \<open>The floor height\<close>

lemma pinned_iff: "pinned s = (\<forall>j < length (agents s). vec_y (position (agents s ! j)) = baseHeight (agents s ! j))"
  by (simp add: pinned_def list_all_length)

lemma pinned_setAgent:
  "pinned s \<Longrightarrow> vec_y (position a) = baseHeight a \<Longrightarrow> pinned (setAgent i a s)"
  by (cases "i < length (agents s)") (auto simp: pinned_iff nth_list_update)

lemma pinned_setPortal [simp]: "pinned (setPortal p c s) = pinned s"
  by (simp add: pinned_def)

lemma pinned_bump [simp]: "pinned (bump k s) = pinned s"
  by (simp add: pinned_def)

lemma pinned_releaseClaimed [simp]: "pinned (releaseClaimed a s) = pinned s"
  by (simp add: pinned_def)

lemma pinned_nth: "pinned s \<Longrightarrow> i < length (agents s) \<Longrightarrow>
    vec_y (position (agents s ! i)) = baseHeight (agents s ! i)"
  by (simp add: pinned_iff)

lemma map_update_nth [simp]: "(map f xs)[i := f (xs ! i)] = map f xs"
  by (cases "i < length xs") (simp_all add: list_update_same_conv list_update_beyond)

lemma pinned_cong:
  "map position (agents s') = map position (agents s) \<Longrightarrow>
   map baseHeight (agents s') = map baseHeight (agents s) \<Longrightarrow> pinned s' = pinned s"
proof -
  assume p: "map position (agents s') = map position (agents s)"
    and b: "map baseHeight (agents s') = map baseHeight (agents s)"
  have l: "length (agents s') = length (agents s)"
    using arg_cong [OF p, of length] by simp
  have "\<And>j. j < length (agents s) \<Longrightarrow>
      position (agents s' ! j) = position (agents s ! j)
      \<and> baseHeight (agents s' ! j) = baseHeight (agents s ! j)"
    using p b l by (metis nth_map)
  then show ?thesis by (simp add: pinned_iff l)
qed

text \<open>The state machine never writes a position.\<close>

lemma updateAgentState_positions:
  "updateAgentState rnd delta i s = Inr s' \<Longrightarrow>
   map position (agents s') = map position (agents s)
   \<and> map baseHeight (agents s') = map baseHeight (agents s)"
  by (auto simp: updateAgentState_def caseIDLE_def caseWANDERING_def caseGOING_TO_DEPT_def
      caseENTERING_def caseINSIDE_DEPT_def caseGOING_TO_EXIT_def caseEXITING_def caseWAITING_def
      insideMove_def insideLeave_def retarget_def
      Let_def map_update
      split: AGENT_STATE.splits option.splits if_splits sum.splits prod.splits)


lemma updateAgentState_pinned:
  "updateAgentState rnd delta i s = Inr s' \<Longrightarrow> pinned s' = pinned s"
  using updateAgentState_positions [of rnd delta i s s'] by (intro pinned_cong) simp_all

lemma updateAgentMovement_pinned: "pinned s \<Longrightarrow> pinned (updateAgentMovement f i s)"
  by (simp add: updateAgentMovement_def Let_def pinned_setAgent)

text \<open>The movement step alone puts the agent it moves at its floor height.\<close>

lemma updateAgentMovement_floor:
  "i < length (agents s) \<Longrightarrow>
   vec_y (position (agents (updateAgentMovement f i s) ! i))
     = baseHeight (agents (updateAgentMovement f i s) ! i)"
  by (simp add: updateAgentMovement_def Let_def)

lemma floorBoundary_pinned:
  assumes "pinned s" and "i < length (agents s)"
  shows "pinned (floorBoundary i s)"
proof -
  have "vec_y (position (agents s ! i)) = baseHeight (agents s ! i)"
    using assms by (rule pinned_nth)
  then show ?thesis
    using assms(1) by (simp add: floorBoundary_def Let_def pinned_setAgent)
qed

lemma deptCollision_pinned:
  "pinned s \<Longrightarrow> pinned (deptCollision rc origin direction far i s d)"
  by (simp add: deptCollision_def Let_def pinned_setAgent split: option.splits prod.splits)

lemma foldl_deptCollision_pinned:
  "pinned s \<Longrightarrow> pinned (foldl (deptCollision rc origin direction far i) s ds)"
  by (induction ds arbitrary: s) (simp_all add: deptCollision_pinned)

lemma handleAgentEnvironmentCollisions_pinned:
  "pinned s \<Longrightarrow> i < length (agents s) \<Longrightarrow>
   pinned (handleAgentEnvironmentCollisions rc f i s)"
  by (simp add: handleAgentEnvironmentCollisions_def Let_def floorBoundary_pinned
      foldl_deptCollision_pinned)

lemma agentStep_pinned:
  assumes "agentStep rc rnd delta f i s = Inr s'" and "pinned s" and "i < length (agents s)"
  shows "pinned s'"
proof -
  from assms(1) obtain s1 where s1: "updateAgentState rnd delta i s = Inr s1"
    and s': "s' = handleAgentEnvironmentCollisions rc f i (updateAgentMovement f i s1)"
    by (auto simp: agentStep_def split: sum.splits)
  have "pinned s1" using updateAgentState_pinned [OF s1] assms(2) by simp
  moreover have "i < length (agents s1)"
    using updateAgentState_frame [OF s1] assms(3) by simp
  ultimately show ?thesis
    unfolding s' by (simp add: handleAgentEnvironmentCollisions_pinned updateAgentMovement_pinned)
qed

lemma forEachAgent_pinned:
  assumes "forEachAgent rc rnd delta f is s = Inr s'" and "pinned s"
    and "\<forall>i \<in> set is. i < length (agents s)"
  shows "pinned s'"
  using assms
proof (induction "is" arbitrary: s)
  case Nil
  then show ?case by simp
next
  case (Cons i "is")
  from Cons.prems(1) obtain s1 where s1: "agentStep rc rnd delta f i s = Inr s1"
    and rest: "forEachAgent rc rnd delta f is s1 = Inr s'"
    by (auto split: sum.splits)
  have p1: "pinned s1" using agentStep_pinned [OF s1] Cons.prems by simp
  have l1: "length (agents s1) = length (agents s)" using agentStep_frame [OF s1] by simp
  show ?case using Cons.IH [OF rest p1] Cons.prems(3) l1 by simp
qed

lemma collidePair_pinned: "pinned s \<Longrightarrow> pinned (collidePair s ij)"
  by (simp add: collidePair_def Let_def pinned_setAgent)

lemma handleAgentAgentCollisions_pinned: "pinned s \<Longrightarrow> pinned (handleAgentAgentCollisions s)"
proof -
  have "\<And>ps. pinned s \<Longrightarrow> pinned (foldl collidePair s ps)"
  proof -
    fix ps show "pinned s \<Longrightarrow> pinned (foldl collidePair s ps)"
      by (induction ps arbitrary: s) (simp_all add: collidePair_pinned)
  qed
  then show "pinned s \<Longrightarrow> pinned (handleAgentAgentCollisions s)"
    by (simp add: handleAgentAgentCollisions_def)
qed

lemma checkQueue_positions:
  "map position (agents (checkQueue r d s)) = map position (agents s)
   \<and> map baseHeight (agents (checkQueue r d s)) = map baseHeight (agents s)"
  by (auto simp: checkQueue_def Let_def agentAt_def map_update
      split: list.splits option.splits if_splits)

lemma processPortalQueues_positions:
  "map position (agents (processPortalQueues s)) = map position (agents s)
   \<and> map baseHeight (agents (processPortalQueues s)) = map baseHeight (agents s)"
proof -
  have "\<And>ds. map position (agents (foldl processDept s ds)) = map position (agents s)
   \<and> map baseHeight (agents (foldl processDept s ds)) = map baseHeight (agents s)"
  proof -
    fix ds
    show "map position (agents (foldl processDept s ds)) = map position (agents s)
      \<and> map baseHeight (agents (foldl processDept s ds)) = map baseHeight (agents s)"
      by (induction ds arbitrary: s) (simp_all add: processDept_def checkQueue_positions)
  qed
  then show ?thesis by (simp add: processPortalQueues_def)
qed

lemma updateAgents_pinned:
  assumes "updateAgents rc rnd delta s = Inr s'" and "pinned s"
  shows "pinned s'"
proof (cases "isPaused s \<or> length (departments s) = 0")
  case True
  with assms show ?thesis by (simp add: updateAgents_def)
next
  case False
  let ?s1 = "handleAgentAgentCollisions s"
  from assms(1) False obtain s2 where
    s2: "forEachAgent rc rnd delta (speed s * delta) [0..<length (agents ?s1)] ?s1 = Inr s2"
    and s': "s' = processPortalQueues s2"
    by (auto simp: updateAgents_def Let_def split: sum.splits)
  have "pinned ?s1" using assms(2) by (rule handleAgentAgentCollisions_pinned)
  then have "pinned s2" using forEachAgent_pinned [OF s2] by simp
  then show ?thesis
    unfolding s' using processPortalQueues_positions [of s2] pinned_cong [of "processPortalQueues s2" s2]
    by simp
qed

lemma animate_pinned: "animate rc rnd delta s = Inr s' \<Longrightarrow> pinned s \<Longrightarrow> pinned s'"
  by (auto simp: animate_def dest: updateAgents_pinned split: if_splits)

lemma spawnOne_pinned: "pinned s \<Longrightarrow> pinned (spawnOne rnd i s)"
  by (simp add: spawnOne_def Let_def pinned_def bump_def Vector3_def)

lemma spawnLoop_pinned: "pinned s \<Longrightarrow> pinned (spawnLoop rnd n i s)"
proof (induction rnd n i s rule: spawnLoop.induct)
  case (1 rnd n i s)
  show ?case
  proof (cases "real i < n")
    case True
    have step: "spawnLoop rnd n i s = spawnLoop rnd n (Suc i) (spawnOne rnd i s)"
      using True by (subst spawnLoop.simps) simp
    show ?thesis unfolding step using "1.IH" [OF True] "1.prems" by (simp add: spawnOne_pinned)
  next
    case False
    then have "spawnLoop rnd n i s = s" by (subst spawnLoop.simps) simp
    then show ?thesis using "1.prems" by simp
  qed
qed

lemma spawnAgents_pinned: "loadedGltfModel s \<Longrightarrow> pinned (spawnAgents rnd n s)"
proof -
  have "pinned (s\<lparr>agents := []\<rparr>)" by (simp add: pinned_def)
  then have "pinned (spawnLoop rnd n 0 (s\<lparr>agents := []\<rparr>))" by (rule spawnLoop_pinned)
  then show "loadedGltfModel s \<Longrightarrow> pinned (spawnAgents rnd n s)"
    by (simp add: spawnAgents_def)
qed

lemma reachable_pinned: "reachable s \<Longrightarrow> pinned s"
proof (induction rule: reachable.induct)
  case (spawn s0 rnd n)
  then show ?case by (simp add: spawnAgents_pinned)
next
  case (tick s rc rnd delta s')
  then show ?case by (simp add: animate_pinned)
next
  case (pause s)
  then show ?case by (simp add: pinned_def toggleSimulation_def)
next
  case (slider s v)
  then show ?case by (simp add: pinned_def)
qed


lemma produce_initial: "loadedGltfModel produceSim" "initialPortals produceSim"
  by (simp_all add: produceSim_def initialPortals_def produceEntry_def produceExit_def
      calculatePortalData_def Let_def)

text \<open>
  C7. In every reachable state every agent stands at its floor height. Each step of a
  tick that writes a position keeps it so, from any state in which it holds: the push
  between agents, the movement step and the collisions with the floor boundary and the
  walls, and with them the whole frame. The movement step puts the agent it moves at
  its floor height whatever its height was before.
\<close>

theorem floor_height_invariant:
  "(reachable s \<longrightarrow> pinned s)
   \<and> (pinned s \<longrightarrow>
        pinned (handleAgentAgentCollisions s)
        \<and> (\<forall>i < length (agents s).
              pinned (updateAgentMovement f i s)
              \<and> pinned (handleAgentEnvironmentCollisions rc f i s))
        \<and> (\<forall>s'. animate rc rnd delta s = Inr s' \<longrightarrow> pinned s'))
   \<and> (\<forall>i < length (agents s).
         vec_y (position (agents (updateAgentMovement f i s) ! i))
           = baseHeight (agents (updateAgentMovement f i s) ! i))"
  by (simp add: reachable_pinned handleAgentAgentCollisions_pinned updateAgentMovement_pinned
      handleAgentEnvironmentCollisions_pinned animate_pinned updateAgentMovement_floor)

theorem floor_height_invariant_witness:
  "reachable (spawnAgents (\<lambda>_. 1 / 4) 2 produceSim)
   \<and> length (agents (spawnAgents (\<lambda>_. 1 / 4) 2 produceSim)) = 2
   \<and> pinned (spawnAgents (\<lambda>_. 1 / 4) 2 produceSim)
   \<and> pinned (handleAgentAgentCollisions (spawnAgents (\<lambda>_. 1 / 4) 2 produceSim))"
proof -
  let ?s = "spawnAgents (\<lambda>_. 1 / 4) 2 produceSim"
  have r: "reachable ?s"
    by (rule reachable.spawn) (rule produce_initial)+
  have "length (map agent_id (agents ?s)) = length [0..<nat \<lceil>2 :: real\<rceil>]"
    by (simp only: spawnAgents_ids [OF produce_initial(1)])
  then have l: "length (agents ?s) = 2" by simp
  have p: "pinned ?s"
    using floor_height_invariant [of ?s] r by blast
  have "pinned (handleAgentAgentCollisions ?s)"
    using floor_height_invariant [of ?s] p by blast
  with r l p show ?thesis by blast
qed

section \<open>The boundary bounce scenario\<close>























section \<open>The portal protocol\<close>

lemma roleOf_transitState [simp]: "roleOf (transitState r) = Some r"
  by (cases r) simp_all

lemma roleOf_waitingState [simp]: "roleOf (waitingState r) = Some r"
  by (cases r) simp_all

lemma isTransit_transitState [simp]: "isTransit (transitState r)"
  by (cases r) (simp_all add: isTransit_def)

lemma isWaiting_waitingState [simp]: "isWaiting (waitingState r)"
  by (cases r) (simp_all add: isWaiting_def)

lemma not_isWaiting_transitState [simp]: "\<not> isWaiting (transitState r)"
  by (cases r) (simp_all add: isWaiting_def)

lemma not_isTransit_waitingState [simp]: "\<not> isTransit (waitingState r)"
  by (cases r) (simp_all add: isTransit_def)

lemma waiting_neq_transit [simp]: "waitingState r \<noteq> transitState r'" "transitState r' \<noteq> waitingState r"
  by (cases r; cases r'; simp)+

lemma transitState_inj [simp]: "(transitState r = transitState r') = (r = r')"
  by (cases r; cases r'; simp)

lemma waitingState_inj [simp]: "(waitingState r = waitingState r') = (r = r')"
  by (cases r; cases r'; simp)

lemma Inv_occupied: "Inv s \<Longrightarrow> isOccupied (portals s q) \<Longrightarrow> \<exists>j. holdsPortal s j q"
  unfolding Inv_def occupancyOk_def by blast

lemma Inv_free: "Inv s \<Longrightarrow> \<not> isOccupied (portals s q) \<Longrightarrow> \<not> holdsPortal s j q"
  unfolding Inv_def occupancyOk_def by blast

lemma Inv_holder_unique: "Inv s \<Longrightarrow> holdsPortal s j q \<Longrightarrow> holdsPortal s k q \<Longrightarrow> j = k"
  unfolding Inv_def occupancyOk_def by blast

lemma Inv_queue_distinct: "Inv s \<Longrightarrow> distinct (queue (portals s q))"
  unfolding Inv_def queuesOk_def by blast

lemma Inv_queue_member:
  "Inv s \<Longrightarrow> j \<in> set (queue (portals s q)) \<Longrightarrow>
   j < length (agents s) \<and> state (agents s ! j) = waitingState (snd q)
   \<and> portalTarget (agents s ! j) = Some q \<and> targetDepartment (agents s ! j) \<noteq> None"
  unfolding Inv_def queuesOk_def by blast

lemma Inv_agentOk: "Inv s \<Longrightarrow> j < length (agents s) \<Longrightarrow> agentOk s (agents s ! j)"
  unfolding Inv_def agentsOk_def by blast

lemma occupancyOkI:
  assumes "\<And>q. isOccupied (portals s q) \<Longrightarrow> \<exists>j. holdsPortal s j q"
    and "\<And>q j. \<not> isOccupied (portals s q) \<Longrightarrow> \<not> holdsPortal s j q"
    and "\<And>q j k. holdsPortal s j q \<Longrightarrow> holdsPortal s k q \<Longrightarrow> j = k"
  shows "occupancyOk s"
  unfolding occupancyOk_def using assms by blast

lemma queuesOkI:
  assumes "\<And>q. distinct (queue (portals s q))"
    and "\<And>q j. j \<in> set (queue (portals s q)) \<Longrightarrow>
      j < length (agents s) \<and> state (agents s ! j) = waitingState (snd q)
      \<and> portalTarget (agents s ! j) = Some q \<and> targetDepartment (agents s ! j) \<noteq> None"
  shows "queuesOk s"
  unfolding queuesOk_def using assms by blast

lemma agentOk_departments: "departments s' = departments s \<Longrightarrow> agentOk s' a = agentOk s a"
  by (simp add: agentOk_def)

text \<open>Changing an agent that neither waits nor holds a portal, into such an agent.\<close>

lemma Inv_neutral:
  assumes inv: "Inv s" and i: "i < length (agents s)"
    and ag: "agents s' = (agents s)[i := a']"
    and po: "portals s' = portals s"
    and de: "departments s' = departments s"
    and w0: "\<not> isWaiting (state (agents s ! i))"
    and t0: "\<not> isTransit (state (agents s ! i)) \<or> portalTarget (agents s ! i) = None"
    and w1: "\<not> isWaiting (state a')"
    and t1: "\<not> isTransit (state a') \<or> portalTarget a' = None"
    and ok: "agentOk s a'"
  shows "Inv s'"
proof -
  have hold: "\<And>j p. holdsPortal s' j p = holdsPortal s j p"
    using i t0 t1 by (auto simp: holdsPortal_def ag nth_list_update)
  have a: "agentsOk s'"
    using inv ok i by (auto simp: Inv_def agentsOk_def ag de agentOk_def nth_list_update)
  have q: "queuesOk s'"
    using inv i w0 unfolding Inv_def queuesOk_def ag po
    by (auto simp: nth_list_update isWaiting_def) (metis isWaiting_def isWaiting_waitingState)+
  have c: "occupancyOk s'"
    using inv by (simp add: Inv_def occupancyOk_def hold po)
  show ?thesis using a q c by (simp add: Inv_def)
qed


text \<open>Changing what the protocol does not look at.\<close>

lemma Inv_same:
  assumes inv: "Inv s"
    and ag: "agents s' = (agents s)[i := a']"
    and po: "portals s' = portals s"
    and de: "departments s' = departments s"
    and same: "state a' = state (agents s ! i)" "portalTarget a' = portalTarget (agents s ! i)"
      "targetDepartment a' = targetDepartment (agents s ! i)"
      "previousState a' = previousState (agents s ! i)"
  shows "Inv s'"
proof (cases "i < length (agents s)")
  case False
  then have "agents s' = agents s" by (simp add: ag list_update_beyond)
  then show ?thesis
    using inv by (simp add: Inv_def agentsOk_def queuesOk_def occupancyOk_def holdsPortal_def
        agentOk_def po de)
next
  case True
  have eq: "\<And>j. j < length (agents s) \<Longrightarrow>
      state (agents s' ! j) = state (agents s ! j)
      \<and> portalTarget (agents s' ! j) = portalTarget (agents s ! j)
      \<and> targetDepartment (agents s' ! j) = targetDepartment (agents s ! j)
      \<and> previousState (agents s' ! j) = previousState (agents s ! j)"
    using same True by (auto simp: ag nth_list_update)
  have len: "length (agents s') = length (agents s)" by (simp add: ag)
  have hold: "\<And>j p. holdsPortal s' j p = holdsPortal s j p"
    using eq by (auto simp: holdsPortal_def len)
  have a: "agentsOk s'"
    using inv eq by (simp add: Inv_def agentsOk_def agentOk_def len de)
  have q: "queuesOk s'"
    using inv eq by (simp add: Inv_def queuesOk_def len po)
  have c: "occupancyOk s'"
    using inv by (simp add: Inv_def occupancyOk_def hold po)
  show ?thesis using a q c by (simp add: Inv_def)
qed

text \<open>Taking a free portal.\<close>

lemma Inv_claim:
  assumes inv: "Inv s" and i: "i < length (agents s)"
    and ag: "agents s' = (agents s)[i := a']"
    and po: "portals s' = (portals s)(p := (portals s p)\<lparr>isOccupied := True\<rparr>)"
    and de: "departments s' = departments s"
    and free: "\<not> isOccupied (portals s p)"
    and w0: "\<not> isWaiting (state (agents s ! i))"
    and t0: "\<not> isTransit (state (agents s ! i)) \<or> portalTarget (agents s ! i) = None"
    and st: "state a' = transitState (snd p)" and pt: "portalTarget a' = Some p"
    and td: "targetDepartment a' \<noteq> None"
    and dok: "\<forall>d. targetDepartment a' = Some d \<longrightarrow> d < length (departments s)"
  shows "Inv s'"
proof -
  have nohold: "\<And>j. \<not> holdsPortal s j p"
    using inv free unfolding Inv_def occupancyOk_def by blast
  have hold: "\<And>j q. holdsPortal s' j q = (if j = i then q = p else holdsPortal s j q)"
    using i t0 st pt
    by (auto simp: holdsPortal_def ag nth_list_update isTransit_def split: portal_role.splits)
  have ok: "agentOk s a'"
    using st pt td dok by (cases "snd p") (auto simp: agentOk_def isTransit_def)
  have a: "agentsOk s'"
    using inv ok i by (auto simp: Inv_def agentsOk_def ag de agentOk_def nth_list_update)
  have q: "queuesOk s'"
    using inv i w0 unfolding Inv_def queuesOk_def ag po
    by (auto simp: nth_list_update)
  have noti: "\<And>q. \<not> holdsPortal s i q"
    using t0 by (auto simp: holdsPortal_def)
  have c: "occupancyOk s'"
  proof (rule occupancyOkI)
    fix q
    assume oc: "isOccupied (portals s' q)"
    show "\<exists>j. holdsPortal s' j q"
    proof (cases "q = p")
      case True
      then show ?thesis unfolding hold by (intro exI [of _ i]) simp
    next
      case False
      then have "isOccupied (portals s q)" using oc by (simp add: po)
      then obtain j where j: "holdsPortal s j q" using Inv_occupied [OF inv] by blast
      then have "j \<noteq> i" using noti by blast
      then show ?thesis unfolding hold using j by (intro exI [of _ j]) simp
    qed
  next
    fix q j
    assume fr: "\<not> isOccupied (portals s' q)"
    then have qp: "q \<noteq> p" by (auto simp: po)
    then have "\<not> isOccupied (portals s q)" using fr by (simp add: po)
    then have "\<not> holdsPortal s j q" using Inv_free [OF inv] by blast
    then show "\<not> holdsPortal s' j q" unfolding hold using qp by simp
  next
    fix q j k
    assume "holdsPortal s' j q" and "holdsPortal s' k q"
    then show "j = k"
      unfolding hold using nohold Inv_holder_unique [OF inv, of j q k]
      by (auto split: if_splits)
  qed
  show ?thesis using a q c by (simp add: Inv_def)
qed


text \<open>Joining the queue of a portal.\<close>

lemma Inv_enqueue:
  assumes inv: "Inv s" and i: "i < length (agents s)"
    and ag: "agents s' = (agents s)[i := a']"
    and po: "portals s' = (portals s)(p := (portals s p)\<lparr>queue := queue (portals s p) @ [i]\<rparr>)"
    and de: "departments s' = departments s"
    and w0: "\<not> isWaiting (state (agents s ! i))"
    and t0: "\<not> isTransit (state (agents s ! i)) \<or> portalTarget (agents s ! i) = None"
    and st: "state a' = waitingState (snd p)" and pt: "portalTarget a' = Some p"
    and td: "targetDepartment a' \<noteq> None"
    and dok: "\<forall>d. targetDepartment a' = Some d \<longrightarrow> d < length (departments s)"
  shows "Inv s'"
proof -
  have len: "length (agents s') = length (agents s)" by (simp add: ag)
  have other: "\<And>j. j \<noteq> i \<Longrightarrow> agents s' ! j = agents s ! j" by (simp add: ag)
  have self: "agents s' ! i = a'" using i by (simp add: ag)
  have noti: "\<And>q. \<not> holdsPortal s i q"
    using t0 by (auto simp: holdsPortal_def)
  have notq: "\<And>q. i \<notin> set (queue (portals s q))"
    using Inv_queue_member [OF inv, of i] w0 by (metis isWaiting_waitingState)
  have hold: "\<And>j q. holdsPortal s' j q = holdsPortal s j q"
  proof -
    fix j q
    show "holdsPortal s' j q = holdsPortal s j q"
    proof (cases "j = i")
      case True
      have "\<not> holdsPortal s' i q"
        using st by (auto simp: holdsPortal_def self)
      then show ?thesis using noti True by simp
    next
      case False
      then show ?thesis by (simp add: holdsPortal_def len other)
    qed
  qed
  have ok: "agentOk s a'"
    using st pt td dok by (cases "snd p") (auto simp: agentOk_def isTransit_def)
  have a: "agentsOk s'"
    using inv ok i by (auto simp: Inv_def agentsOk_def ag de agentOk_def nth_list_update)
  have q: "queuesOk s'"
  proof (rule queuesOkI)
    fix q
    show "distinct (queue (portals s' q))"
      using Inv_queue_distinct [OF inv, of q] notq [of p] by (cases "q = p") (simp_all add: po)
  next
    fix q j
    assume m: "j \<in> set (queue (portals s' q))"
    show "j < length (agents s') \<and> state (agents s' ! j) = waitingState (snd q)
      \<and> portalTarget (agents s' ! j) = Some q \<and> targetDepartment (agents s' ! j) \<noteq> None"
    proof (cases "j = i")
      case True
      then have "q = p" using m notq [of q] by (auto simp: po split: if_splits)
      then show ?thesis using True i st pt td by (simp add: self len)
    next
      case False
      then have "j \<in> set (queue (portals s q))" using m by (auto simp: po split: if_splits)
      then show ?thesis using Inv_queue_member [OF inv, of j q] False by (simp add: other len)
    qed
  qed
  have occ: "\<And>q. isOccupied (portals s' q) = isOccupied (portals s q)"
    by (simp add: po)
  have c: "occupancyOk s'"
    using inv unfolding Inv_def occupancyOk_def hold occ by simp
  show ?thesis using a q c by (simp add: Inv_def)
qed

text \<open>Leaving a portal that the agent holds.\<close>

lemma Inv_release:
  assumes inv: "Inv s"
    and ag: "agents s' = (agents s)[i := a']"
    and po: "portals s' = (portals s)(p := (portals s p)\<lparr>isOccupied := False\<rparr>)"
    and de: "departments s' = departments s"
    and h: "holdsPortal s i p"
    and w1: "\<not> isWaiting (state a')"
    and t1: "\<not> isTransit (state a') \<or> portalTarget a' = None"
    and ok: "agentOk s a'"
  shows "Inv s'"
proof -
  have i: "i < length (agents s)" using h by (simp add: holdsPortal_def)
  have len: "length (agents s') = length (agents s)" by (simp add: ag)
  have other: "\<And>j. j \<noteq> i \<Longrightarrow> agents s' ! j = agents s ! j" by (simp add: ag)
  have self: "agents s' ! i = a'" using i by (simp add: ag)
  have notq: "\<And>q. i \<notin> set (queue (portals s q))"
    using Inv_queue_member [OF inv, of i] h by (metis holdsPortal_def waiting_neq_transit(1))
  have only: "\<And>q. holdsPortal s i q \<Longrightarrow> q = p"
    using h by (simp add: holdsPortal_def)
  have hold: "\<And>j q. holdsPortal s' j q = (j \<noteq> i \<and> holdsPortal s j q)"
  proof -
    fix j q
    show "holdsPortal s' j q = (j \<noteq> i \<and> holdsPortal s j q)"
    proof (cases "j = i")
      case True
      have "\<not> holdsPortal s' i q"
        using t1 by (auto simp: holdsPortal_def self)
      then show ?thesis using True by simp
    next
      case False
      then show ?thesis by (simp add: holdsPortal_def len other)
    qed
  qed
  have a: "agentsOk s'"
    using inv ok i by (auto simp: Inv_def agentsOk_def ag de agentOk_def nth_list_update)
  have q: "queuesOk s'"
  proof (rule queuesOkI)
    fix q
    show "distinct (queue (portals s' q))"
      using Inv_queue_distinct [OF inv, of q] by (cases "q = p") (simp_all add: po)
  next
    fix q j
    assume "j \<in> set (queue (portals s' q))"
    then have m: "j \<in> set (queue (portals s q))" by (auto simp: po split: if_splits)
    then have "j \<noteq> i" using notq by blast
    then show "j < length (agents s') \<and> state (agents s' ! j) = waitingState (snd q)
      \<and> portalTarget (agents s' ! j) = Some q \<and> targetDepartment (agents s' ! j) \<noteq> None"
      using Inv_queue_member [OF inv m] by (simp add: other len)
  qed
  have c: "occupancyOk s'"
  proof (rule occupancyOkI)
    fix q
    assume oc: "isOccupied (portals s' q)"
    then have qp: "q \<noteq> p" by (auto simp: po)
    then have "isOccupied (portals s q)" using oc by (simp add: po)
    then obtain j where j: "holdsPortal s j q" using Inv_occupied [OF inv] by blast
    then have "j \<noteq> i" using only qp by blast
    then show "\<exists>j. holdsPortal s' j q" unfolding hold using j by blast
  next
    fix q j
    assume fr: "\<not> isOccupied (portals s' q)"
    show "\<not> holdsPortal s' j q"
    proof (cases "q = p")
      case True
      then show ?thesis unfolding hold using Inv_holder_unique [OF inv h, of j] by blast
    next
      case False
      then have "\<not> isOccupied (portals s q)" using fr by (simp add: po)
      then show ?thesis unfolding hold using Inv_free [OF inv] by blast
    qed
  next
    fix q j k
    assume "holdsPortal s' j q" and "holdsPortal s' k q"
    then show "j = k" unfolding hold using Inv_holder_unique [OF inv, of j q k] by blast
  qed
  show ?thesis using a q c by (simp add: Inv_def)
qed

text \<open>Letting the first agent of the queue of a free portal through.\<close>

lemma Inv_promote:
  assumes inv: "Inv s"
    and ag: "agents s' = (agents s)[i := a']"
    and po: "portals s' = (portals s)(p := (portals s p)\<lparr>queue := rest, isOccupied := True\<rparr>)"
    and de: "departments s' = departments s"
    and qu: "queue (portals s p) = i # rest"
    and free: "\<not> isOccupied (portals s p)"
    and st: "state a' = transitState (snd p)"
    and pt: "portalTarget a' = portalTarget (agents s ! i)"
    and td: "targetDepartment a' = targetDepartment (agents s ! i)"
  shows "Inv s'"
proof -
  have mem: "i \<in> set (queue (portals s p))" by (simp add: qu)
  note wi = Inv_queue_member [OF inv mem]
  have i: "i < length (agents s)" using wi by simp
  have len: "length (agents s') = length (agents s)" by (simp add: ag)
  have other: "\<And>j. j \<noteq> i \<Longrightarrow> agents s' ! j = agents s ! j" by (simp add: ag)
  have self: "agents s' ! i = a'" using i by (simp add: ag)
  have noti: "\<And>q. \<not> holdsPortal s i q"
    using wi by (auto simp: holdsPortal_def)
  have nohold: "\<And>j. \<not> holdsPortal s j p"
    using Inv_free [OF inv free] by blast
  have hold: "\<And>j q. holdsPortal s' j q = (if j = i then q = p else holdsPortal s j q)"
  proof -
    fix j q
    show "holdsPortal s' j q = (if j = i then q = p else holdsPortal s j q)"
    proof (cases "j = i")
      case True
      then show ?thesis using i st pt wi by (auto simp: holdsPortal_def self len)
    next
      case False
      then show ?thesis by (simp add: holdsPortal_def len other)
    qed
  qed
  have ok0: "agentOk s (agents s ! i)" using Inv_agentOk [OF inv i] .
  have ok: "agentOk s a'"
    using st pt td wi ok0 by (cases "snd p") (auto simp: agentOk_def isTransit_def)
  have a: "agentsOk s'"
    using inv ok i by (auto simp: Inv_def agentsOk_def ag de agentOk_def nth_list_update)
  have dq: "distinct (i # rest)" using Inv_queue_distinct [OF inv, of p] by (simp add: qu)
  have q: "queuesOk s'"
  proof (rule queuesOkI)
    fix q
    show "distinct (queue (portals s' q))"
      using Inv_queue_distinct [OF inv, of q] dq by (simp add: po)
  next
    fix q j
    assume m': "j \<in> set (queue (portals s' q))"
    have m: "j \<in> set (queue (portals s q))"
      using m' by (cases "q = p") (simp_all add: po qu)
    have "j \<noteq> i"
    proof (cases "q = p")
      case True
      then show ?thesis using m' dq by (auto simp: po)
    next
      case False
      then show ?thesis using Inv_queue_member [OF inv m] wi by auto
    qed
    then show "j < length (agents s') \<and> state (agents s' ! j) = waitingState (snd q)
      \<and> portalTarget (agents s' ! j) = Some q \<and> targetDepartment (agents s' ! j) \<noteq> None"
      using Inv_queue_member [OF inv m] by (simp add: other len)
  qed
  have c: "occupancyOk s'"
  proof (rule occupancyOkI)
    fix q
    assume oc: "isOccupied (portals s' q)"
    show "\<exists>j. holdsPortal s' j q"
    proof (cases "q = p")
      case True
      then show ?thesis unfolding hold by (intro exI [of _ i]) simp
    next
      case False
      then have "isOccupied (portals s q)" using oc by (simp add: po)
      then obtain j where j: "holdsPortal s j q" using Inv_occupied [OF inv] by blast
      then have "j \<noteq> i" using noti by blast
      then show ?thesis unfolding hold using j by (intro exI [of _ j]) simp
    qed
  next
    fix q j
    assume fr: "\<not> isOccupied (portals s' q)"
    then have qp: "q \<noteq> p" by (auto simp: po)
    then have "\<not> isOccupied (portals s q)" using fr by (simp add: po)
    then have "\<not> holdsPortal s j q" using Inv_free [OF inv] by blast
    then show "\<not> holdsPortal s' j q" unfolding hold using qp by simp
  next
    fix q j k
    assume "holdsPortal s' j q" and "holdsPortal s' k q"
    then show "j = k"
      unfolding hold using nohold Inv_holder_unique [OF inv, of j q k]
      by (auto split: if_splits)
  qed
  show ?thesis using a q c by (simp add: Inv_def)
qed

lemma Inv_bump [simp]: "Inv (bump k s) = Inv s"
  by (simp add: Inv_def agentsOk_def queuesOk_def occupancyOk_def holdsPortal_def agentOk_def
      bump_def)

lemma Inv_transit:
  assumes "Inv s" and "i < length (agents s)" and "isTransit (state (agents s ! i))"
    and "portalTarget (agents s ! i) = Some p"
  shows "holdsPortal s i p \<and> isOccupied (portals s p)
     \<and> targetDepartment (agents s ! i) \<noteq> None"
proof -
  have ok: "agentOk s (agents s ! i)" using assms(1,2) by (rule Inv_agentOk)
  have h: "holdsPortal s i p"
    using ok assms(2,3,4)
    by (cases p; cases "state (agents s ! i)") (auto simp: agentOk_def holdsPortal_def isTransit_def)
  moreover have "isOccupied (portals s p)" using Inv_free [OF assms(1), of p i] h by blast
  moreover have "targetDepartment (agents s ! i) \<noteq> None"
    using ok assms(3,4) by (simp add: agentOk_def)
  ultimately show ?thesis by simp
qed

lemma portals_setPortal_fun: "portals (setPortal p c s) = (portals s)(p := c)"
  by (simp add: setPortal_def)

lemma Inv_setAgent_neutral:
  assumes "Inv s" and "i < length (agents s)"
    and "\<not> isWaiting (state (agents s ! i))"
    and "\<not> isTransit (state (agents s ! i)) \<or> portalTarget (agents s ! i) = None"
    and "\<not> isWaiting (state a')"
    and "\<not> isTransit (state a') \<or> portalTarget a' = None"
    and "agentOk s a'"
  shows "Inv (setAgent i a' s)"
  by (rule Inv_neutral [of s i _ a']) (use assms in simp_all)

lemma Inv_setAgent_same:
  assumes "Inv s"
    and "state a' = state (agents s ! i)" and "portalTarget a' = portalTarget (agents s ! i)"
    and "targetDepartment a' = targetDepartment (agents s ! i)"
    and "previousState a' = previousState (agents s ! i)"
  shows "Inv (setAgent i a' s)"
  by (rule Inv_same [of s _ i a']) (use assms in simp_all)

lemma Inv_setAgent_claim:
  assumes "Inv s" and "i < length (agents s)"
    and "\<not> isOccupied (portals s p)"
    and "\<not> isWaiting (state (agents s ! i))"
    and "\<not> isTransit (state (agents s ! i)) \<or> portalTarget (agents s ! i) = None"
    and "state a' = transitState (snd p)" and "portalTarget a' = Some p"
    and "targetDepartment a' \<noteq> None"
    and "\<forall>d. targetDepartment a' = Some d \<longrightarrow> d < length (departments s)"
  shows "Inv (setAgent i a' (setPortal p ((portals s p)\<lparr>isOccupied := True\<rparr>) s))"
  by (rule Inv_claim [of s i _ a' p]) (use assms in \<open>simp_all add: portals_setPortal_fun\<close>)

lemma Inv_setAgent_enqueue:
  assumes "Inv s" and "i < length (agents s)"
    and "\<not> isWaiting (state (agents s ! i))"
    and "\<not> isTransit (state (agents s ! i)) \<or> portalTarget (agents s ! i) = None"
    and "state a' = waitingState (snd p)" and "portalTarget a' = Some p"
    and "targetDepartment a' \<noteq> None"
    and "\<forall>d. targetDepartment a' = Some d \<longrightarrow> d < length (departments s)"
  shows "Inv (setAgent i a' (setPortal p ((portals s p)\<lparr>queue := queue (portals s p) @ [i]\<rparr>) s))"
  by (rule Inv_enqueue [of s i _ a' p]) (use assms in \<open>simp_all add: portals_setPortal_fun\<close>)

lemma Inv_setAgent_release:
  assumes "Inv s" and "holdsPortal s i p"
    and "\<not> isWaiting (state a')"
    and "\<not> isTransit (state a') \<or> portalTarget a' = None"
    and "agentOk s a'"
  shows "Inv (setAgent i a' (setPortal p ((portals s p)\<lparr>isOccupied := False\<rparr>) s))"
  by (rule Inv_release [of s _ i a' p]) (use assms in \<open>simp_all add: portals_setPortal_fun\<close>)

lemma agentOk_WANDERING:
  "state a' = WANDERING \<Longrightarrow>
   \<forall>d. targetDepartment a' = Some d \<longrightarrow> d < length (departments s) \<Longrightarrow> agentOk s a'"
  by (simp add: agentOk_def isTransit_def)

lemma agentOk_INSIDE_DEPT:
  "state a' = INSIDE_DEPT \<Longrightarrow> targetDepartment a' \<noteq> None \<Longrightarrow>
   \<forall>d. targetDepartment a' = Some d \<longrightarrow> d < length (departments s) \<Longrightarrow> agentOk s a'"
  by (simp add: agentOk_def isTransit_def)

lemma agentOk_IDLE:
  "state a' = IDLE \<Longrightarrow>
   previousState a' = Some WANDERING
   \<or> (previousState a' = Some INSIDE_DEPT \<and> targetDepartment a' \<noteq> None) \<Longrightarrow>
   \<forall>d. targetDepartment a' = Some d \<longrightarrow> d < length (departments s) \<Longrightarrow> agentOk s a'"
  by (auto simp: agentOk_def isTransit_def)

lemma agentOk_GOING:
  "state a' = GOING_TO_DEPT \<and> portalTarget a' = Some (d, EntryPortal)
   \<or> state a' = GOING_TO_EXIT \<and> portalTarget a' = Some (d, ExitPortal) \<Longrightarrow>
   \<forall>d. targetDepartment a' = Some d \<longrightarrow> d < length (departments s) \<Longrightarrow> agentOk s a'"
  by (auto simp: agentOk_def isTransit_def)

lemma agentOk_targets:
  "agentOk s a \<Longrightarrow> \<forall>d. targetDepartment a = Some d \<longrightarrow> d < length (departments s)"
  by (simp add: agentOk_def)

lemma caseIDLE_Inv:
  assumes inv: "Inv s" and i: "i < length (agents s)" and st: "state (agents s ! i) = IDLE"
  shows "Inv (caseIDLE rnd delta i s)"
proof -
  let ?a = "agents s ! i"
  let ?st = "case previousState ?a of Some st \<Rightarrow> st | None \<Rightarrow> WANDERING"
  have ok: "agentOk s ?a" using inv i by (rule Inv_agentOk)
  have dok: "\<forall>d. targetDepartment ?a = Some d \<longrightarrow> d < length (departments s)"
    using ok by (rule agentOk_targets)
  have w0: "\<not> isWaiting (state ?a)" and t0: "\<not> isTransit (state ?a)"
    using st by (simp_all add: isWaiting_def isTransit_def)
  have res: "?st = WANDERING \<or> (?st = INSIDE_DEPT \<and> targetDepartment ?a \<noteq> None)"
    using ok st by (auto simp: agentOk_def)
  have same: "\<And>a'. state a' = IDLE \<Longrightarrow> portalTarget a' = portalTarget ?a \<Longrightarrow>
      targetDepartment a' = targetDepartment ?a \<Longrightarrow> previousState a' = previousState ?a \<Longrightarrow>
      Inv (setAgent i a' s)"
    by (rule Inv_setAgent_same) (use inv st in simp_all)
  have resume: "\<And>a'. state a' = ?st \<Longrightarrow> targetDepartment a' = targetDepartment ?a \<Longrightarrow>
      Inv (setAgent i a' s)"
  proof -
    fix a' :: agent
    assume s': "state a' = ?st" and td: "targetDepartment a' = targetDepartment ?a"
    have ok': "agentOk s a'"
      using res s' td dok by (auto intro: agentOk_WANDERING agentOk_INSIDE_DEPT)
    have w1: "\<not> isWaiting (state a')" and t1: "\<not> isTransit (state a')"
      using res s' by (auto simp: isWaiting_def isTransit_def)
    show "Inv (setAgent i a' s)"
      by (rule Inv_setAgent_neutral) (use inv i w0 t0 ok' w1 t1 in simp_all)
  qed
  show ?thesis
    using st by (simp add: caseIDLE_def Let_def setAgent_bump same resume split: option.splits)
qed

lemma agentOk_role:
  "agentOk s a \<Longrightarrow> roleOf (state a) = Some r \<Longrightarrow> portalTarget a = Some p \<Longrightarrow> snd p = r"
  unfolding agentOk_def by blast

lemma agentOk_GOING_TO_DEPT:
  "state a' = GOING_TO_DEPT \<Longrightarrow> portalTarget a' = Some (d, EntryPortal) \<Longrightarrow>
   \<forall>d. targetDepartment a' = Some d \<longrightarrow> d < length (departments s) \<Longrightarrow> agentOk s a'"
  by (simp add: agentOk_def isTransit_def)

lemma agentOk_GOING_TO_EXIT:
  "state a' = GOING_TO_EXIT \<Longrightarrow> portalTarget a' = Some (d, ExitPortal) \<Longrightarrow>
   \<forall>d. targetDepartment a' = Some d \<longrightarrow> d < length (departments s) \<Longrightarrow> agentOk s a'"
  by (simp add: agentOk_def isTransit_def)

lemma caseWANDERING_Inv:
  assumes inv: "Inv s" and i: "i < length (agents s)" and st: "state (agents s ! i) = WANDERING"
  shows "Inv (caseWANDERING rnd delta i s)"
proof -
  let ?a = "agents s ! i"
  have ok: "agentOk s ?a" using inv i by (rule Inv_agentOk)
  have dok: "\<forall>d. targetDepartment ?a = Some d \<longrightarrow> d < length (departments s)"
    using ok by (rule agentOk_targets)
  have w0: "\<not> isWaiting (state ?a)" and t0: "\<not> isTransit (state ?a)"
    using st by (simp_all add: isWaiting_def isTransit_def)
  have neutral: "\<And>a'. agentOk s a' \<Longrightarrow> \<not> isWaiting (state a') \<Longrightarrow> \<not> isTransit (state a') \<Longrightarrow>
      Inv (setAgent i a' s)"
    by (rule Inv_setAgent_neutral) (use inv i w0 t0 in simp_all)
  have visit: "\<And>a'. state a' = GOING_TO_DEPT \<Longrightarrow>
      (\<exists>k. k < length (departments s) \<and> portalTarget a' = Some (k, EntryPortal)
         \<and> targetDepartment a' = Some k) \<Longrightarrow>
      Inv (setAgent i a' s)"
    by (rule neutral) (auto simp: agentOk_GOING_TO_DEPT isWaiting_def isTransit_def)
  have none: "\<And>a'. state a' = WANDERING \<Longrightarrow> targetDepartment a' = None \<Longrightarrow>
      Inv (setAgent i a' s)"
    by (rule neutral) (simp_all add: agentOk_WANDERING isWaiting_def isTransit_def)
  have idle: "\<And>a'. state a' = IDLE \<Longrightarrow> previousState a' = Some WANDERING \<Longrightarrow>
      targetDepartment a' = targetDepartment ?a \<Longrightarrow> Inv (setAgent i a' s)"
    by (rule neutral) (use dok in \<open>simp_all add: agentOk_IDLE isWaiting_def isTransit_def\<close>)
  have nat_lt: "\<And>k::int. 0 \<le> k \<Longrightarrow> k < int (length (departments s)) \<Longrightarrow>
      nat k < length (departments s)"
    by simp
  show ?thesis
    using st
    by (simp add: caseWANDERING_def Let_def setAgent_bump entryPortal_def visit none idle inv
        nat_less_iff)
qed

lemma caseGOING_TO_DEPT_Inv:
  assumes inv: "Inv s" and i: "i < length (agents s)"
    and st: "state (agents s ! i) = GOING_TO_DEPT"
  shows "Inv (caseGOING_TO_DEPT i s)"
proof -
  let ?a = "agents s ! i"
  have ok: "agentOk s ?a" using inv i by (rule Inv_agentOk)
  have dok: "\<forall>d. targetDepartment ?a = Some d \<longrightarrow> d < length (departments s)"
    using ok by (rule agentOk_targets)
  have w0: "\<not> isWaiting (state ?a)" and t0: "\<not> isTransit (state ?a)"
    using st by (simp_all add: isWaiting_def isTransit_def)
  have role: "\<And>p. portalTarget ?a = Some p \<Longrightarrow> snd p = EntryPortal"
    using agentOk_role [OF ok] st by simp
  have wander: "\<And>a'. state a' = WANDERING \<Longrightarrow> targetDepartment a' = targetDepartment ?a \<Longrightarrow>
      Inv (setAgent i a' s)"
    by (rule Inv_setAgent_neutral)
      (use inv i w0 t0 dok in \<open>simp_all add: agentOk_WANDERING isWaiting_def isTransit_def\<close>)
  have same: "\<And>a'. state a' = state ?a \<Longrightarrow> portalTarget a' = portalTarget ?a \<Longrightarrow>
      targetDepartment a' = targetDepartment ?a \<Longrightarrow> previousState a' = previousState ?a \<Longrightarrow>
      Inv (setAgent i a' s)"
    by (rule Inv_setAgent_same) (use inv in simp_all)
  have claim: "\<And>p a'. portalTarget ?a = Some p \<Longrightarrow> \<not> isOccupied (portals s p) \<Longrightarrow>
      targetDepartment ?a \<noteq> None \<Longrightarrow> state a' = ENTERING \<Longrightarrow>
      portalTarget a' = Some p \<Longrightarrow> targetDepartment a' = targetDepartment ?a \<Longrightarrow>
      Inv (setAgent i a' (setPortal p ((portals s p)\<lparr>isOccupied := True\<rparr>) s))"
    by (rule Inv_setAgent_claim) (use inv i w0 t0 dok role in simp_all)
  have enqueue: "\<And>p a'. portalTarget ?a = Some p \<Longrightarrow>
      targetDepartment ?a \<noteq> None \<Longrightarrow> state a' = WAITING_ENTRY \<Longrightarrow>
      portalTarget a' = Some p \<Longrightarrow> targetDepartment a' = targetDepartment ?a \<Longrightarrow>
      Inv (setAgent i a' (setPortal p ((portals s p)\<lparr>queue := queue (portals s p) @ [i]\<rparr>) s))"
    by (rule Inv_setAgent_enqueue) (use inv i w0 t0 dok role in simp_all)
  show ?thesis
    by (simp add: caseGOING_TO_DEPT_def Let_def wander same claim enqueue split: option.splits)
qed

lemma caseGOING_TO_EXIT_Inv:
  assumes inv: "Inv s" and i: "i < length (agents s)"
    and st: "state (agents s ! i) = GOING_TO_EXIT"
  shows "Inv (caseGOING_TO_EXIT i s)"
proof -
  let ?a = "agents s ! i"
  have ok: "agentOk s ?a" using inv i by (rule Inv_agentOk)
  have dok: "\<forall>d. targetDepartment ?a = Some d \<longrightarrow> d < length (departments s)"
    using ok by (rule agentOk_targets)
  have w0: "\<not> isWaiting (state ?a)" and t0: "\<not> isTransit (state ?a)"
    using st by (simp_all add: isWaiting_def isTransit_def)
  have role: "\<And>p. portalTarget ?a = Some p \<Longrightarrow> snd p = ExitPortal"
    using agentOk_role [OF ok] st by simp
  have wander: "\<And>a'. state a' = WANDERING \<Longrightarrow> targetDepartment a' = targetDepartment ?a \<Longrightarrow>
      Inv (setAgent i a' s)"
    by (rule Inv_setAgent_neutral)
      (use inv i w0 t0 dok in \<open>simp_all add: agentOk_WANDERING isWaiting_def isTransit_def\<close>)
  have same: "\<And>a'. state a' = state ?a \<Longrightarrow> portalTarget a' = portalTarget ?a \<Longrightarrow>
      targetDepartment a' = targetDepartment ?a \<Longrightarrow> previousState a' = previousState ?a \<Longrightarrow>
      Inv (setAgent i a' s)"
    by (rule Inv_setAgent_same) (use inv in simp_all)
  have claim: "\<And>p a'. portalTarget ?a = Some p \<Longrightarrow> \<not> isOccupied (portals s p) \<Longrightarrow>
      targetDepartment ?a \<noteq> None \<Longrightarrow> state a' = EXITING \<Longrightarrow>
      portalTarget a' = Some p \<Longrightarrow> targetDepartment a' = targetDepartment ?a \<Longrightarrow>
      Inv (setAgent i a' (setPortal p ((portals s p)\<lparr>isOccupied := True\<rparr>) s))"
    by (rule Inv_setAgent_claim) (use inv i w0 t0 dok role in simp_all)
  have enqueue: "\<And>p a'. portalTarget ?a = Some p \<Longrightarrow>
      targetDepartment ?a \<noteq> None \<Longrightarrow> state a' = WAITING_EXIT \<Longrightarrow>
      portalTarget a' = Some p \<Longrightarrow> targetDepartment a' = targetDepartment ?a \<Longrightarrow>
      Inv (setAgent i a' (setPortal p ((portals s p)\<lparr>queue := queue (portals s p) @ [i]\<rparr>) s))"
    by (rule Inv_setAgent_enqueue) (use inv i w0 t0 dok role in simp_all)
  show ?thesis
    by (simp add: caseGOING_TO_EXIT_def Let_def wander same claim enqueue split: option.splits)
qed

lemma caseWAITING_Inv: "Inv s \<Longrightarrow> Inv (caseWAITING i s)"
  by (simp add: caseWAITING_def Inv_setAgent_same)


lemma caseENTERING_Inv:
  assumes inv: "Inv s" and i: "i < length (agents s)"
    and st: "state (agents s ! i) = ENTERING"
    and res: "caseENTERING rnd i s = Inr s'"
  shows "Inv s'"
proof (cases "portalTarget (agents s ! i)")
  case None
  have "Inv (setAgent i ((agents s ! i)\<lparr>state := WANDERING\<rparr>) s)"
    by (rule Inv_setAgent_neutral)
      (use inv i st None agentOk_targets [OF Inv_agentOk [OF inv i]]
        in \<open>simp_all add: isWaiting_def isTransit_def agentOk_WANDERING\<close>)
  then show ?thesis using res None by (simp add: caseENTERING_def)
next
  case (Some p)
  let ?a = "agents s ! i"
  have tr: "isTransit (state ?a)" using st by (simp add: isTransit_def)
  note h = Inv_transit [OF inv i tr Some]
  have td: "targetDepartment ?a \<noteq> None" using h by simp
  have leave: "\<And>a'. state a' = INSIDE_DEPT \<Longrightarrow> targetDepartment a' = targetDepartment ?a \<Longrightarrow>
      Inv (setAgent i a' (setPortal p ((portals s p)\<lparr>isOccupied := False\<rparr>) s))"
    by (rule Inv_setAgent_release)
      (use inv h td agentOk_targets [OF Inv_agentOk [OF inv i]]
        in \<open>simp_all add: isWaiting_def isTransit_def agentOk_INSIDE_DEPT\<close>)
  show ?thesis
    using res Some td inv
    by (auto simp: caseENTERING_def Let_def setAgent_bump setPortal_bump leave
        split: if_splits sum.splits prod.splits option.splits)
qed

lemma caseEXITING_Inv:
  assumes inv: "Inv s" and i: "i < length (agents s)"
    and st: "state (agents s ! i) = EXITING"
  shows "Inv (caseEXITING rnd i s)"
proof (cases "portalTarget (agents s ! i)")
  case None
  have "Inv (setAgent i ((agents s ! i)\<lparr>state := WANDERING\<rparr>) s)"
    by (rule Inv_setAgent_neutral)
      (use inv i st None agentOk_targets [OF Inv_agentOk [OF inv i]]
        in \<open>simp_all add: isWaiting_def isTransit_def agentOk_WANDERING\<close>)
  then show ?thesis using None by (simp add: caseEXITING_def)
next
  case (Some p)
  let ?a = "agents s ! i"
  have tr: "isTransit (state ?a)" using st by (simp add: isTransit_def)
  note h = Inv_transit [OF inv i tr Some]
  have td: "targetDepartment ?a \<noteq> None" using h by simp
  have leave: "\<And>a'. state a' = WANDERING \<Longrightarrow> targetDepartment a' = None \<Longrightarrow>
      Inv (setAgent i a' (setPortal p ((portals s p)\<lparr>isOccupied := False\<rparr>) s))"
    by (rule Inv_setAgent_release)
      (use inv h in \<open>simp_all add: isWaiting_def isTransit_def agentOk_WANDERING\<close>)
  show ?thesis
    using Some td inv
    by (auto simp: caseEXITING_def Let_def setAgent_bump setPortal_bump leave)
qed

lemma insideMove_control:
  "insideMove rnd n s a = Inr (a2, k) \<Longrightarrow>
   state a2 = state a \<and> portalTarget a2 = portalTarget a
   \<and> targetDepartment a2 = targetDepartment a \<and> previousState a2 = previousState a"
  by (auto simp: insideMove_def retarget_def split: option.splits if_splits sum.splits)

lemma insideLeave_control:
  "insideLeave s a = Inr a3 \<Longrightarrow>
   targetDepartment a3 = targetDepartment a \<and> previousState a3 = previousState a
   \<and> (state a3 = state a \<and> portalTarget a3 = portalTarget a
      \<or> (\<exists>d. targetDepartment a = Some d \<and> state a3 = GOING_TO_EXIT
            \<and> portalTarget a3 = Some (d, ExitPortal)))"
  by (auto simp: insideLeave_def exitPortal_def split: option.splits if_splits)

lemma caseINSIDE_DEPT_Inv:
  assumes inv: "Inv s" and i: "i < length (agents s)"
    and st: "state (agents s ! i) = INSIDE_DEPT"
    and res: "caseINSIDE_DEPT rnd delta i s = Inr s'"
  shows "Inv s'"
proof -
  let ?a = "agents s ! i"
  have ok: "agentOk s ?a" using inv i by (rule Inv_agentOk)
  have dok: "\<forall>d. targetDepartment ?a = Some d \<longrightarrow> d < length (departments s)"
    using ok by (rule agentOk_targets)
  have td: "targetDepartment ?a \<noteq> None" using ok st by (simp add: agentOk_def)
  have w0: "\<not> isWaiting (state ?a)" and t0: "\<not> isTransit (state ?a)"
    using st by (simp_all add: isWaiting_def isTransit_def)
  have neutral: "\<And>a'. agentOk s a' \<Longrightarrow> \<not> isWaiting (state a') \<Longrightarrow> \<not> isTransit (state a') \<Longrightarrow>
      Inv (setAgent i a' s)"
    by (rule Inv_setAgent_neutral) (use inv i w0 t0 in simp_all)
  have idle: "\<And>a'. state a' = IDLE \<Longrightarrow> previousState a' = Some INSIDE_DEPT \<Longrightarrow>
      targetDepartment a' = targetDepartment ?a \<Longrightarrow> Inv (setAgent i a' s)"
    by (rule neutral) (use dok td in \<open>simp_all add: agentOk_IDLE isWaiting_def isTransit_def\<close>)
  have stay: "\<And>a'. state a' = INSIDE_DEPT \<Longrightarrow> targetDepartment a' = targetDepartment ?a \<Longrightarrow>
      Inv (setAgent i a' s)"
    by (rule neutral)
      (use dok td in \<open>simp_all add: agentOk_INSIDE_DEPT isWaiting_def isTransit_def\<close>)
  have go: "\<And>a' d. state a' = GOING_TO_EXIT \<Longrightarrow> portalTarget a' = Some (d, ExitPortal) \<Longrightarrow>
      targetDepartment a' = targetDepartment ?a \<Longrightarrow> Inv (setAgent i a' s)"
    by (rule neutral)
      (use dok in \<open>simp_all add: agentOk_GOING_TO_EXIT isWaiting_def isTransit_def\<close>)
  let ?a1 = "?a\<lparr>timeInDepartment := timeInDepartment ?a - delta\<rparr>"
  show ?thesis
  proof (cases "idleTimer ?a1 \<le> 0 \<and> rnd (rng s) < IDLE_CHANCE * delta * 1.5")
    case True
    then show ?thesis using res by (auto simp: caseINSIDE_DEPT_def Let_def setAgent_bump idle)
  next
    case False
    let ?n0 = "if idleTimer ?a1 \<le> 0 then 1 else 0 :: nat"
    from res False obtain a2 k a3 where
      m: "insideMove rnd (rng s + ?n0) s ?a1 = Inr (a2, k)"
      and l: "insideLeave s a2 = Inr a3"
      and s': "s' = setAgent i a3 (bump (?n0 + k) s)"
      by (auto simp: caseINSIDE_DEPT_def Let_def split: sum.splits prod.splits if_splits)
    note c2 = insideMove_control [OF m]
    note c3 = insideLeave_control [OF l]
    have "Inv (setAgent i a3 s)"
      using c2 c3 st stay [of a3] go [of a3] by auto
    then show ?thesis unfolding s' by (simp add: setAgent_bump)
  qed
qed

lemma updateAgentState_Inv:
  assumes "Inv s" and "i < length (agents s)" and "updateAgentState rnd delta i s = Inr s'"
  shows "Inv s'"
  using assms
  by (cases "state (agents s ! i)")
    (auto simp: updateAgentState_def caseIDLE_Inv caseWANDERING_Inv caseGOING_TO_DEPT_Inv
      caseGOING_TO_EXIT_Inv caseEXITING_Inv caseWAITING_Inv
      dest: caseENTERING_Inv caseINSIDE_DEPT_Inv)

text \<open>In a state that satisfies the invariant the state machine raises no exception.\<close>

lemma getRandomPointInDepartment_total:
  "d < length (departments s) \<Longrightarrow>
   \<exists>r. getRandomPointInDepartment rnd n s (Some d) = Inr r"
  by (simp add: getRandomPointInDepartment_def Let_def)

lemma updateAgentState_total:
  assumes inv: "Inv s" and i: "i < length (agents s)"
  shows "\<exists>s'. updateAgentState rnd delta i s = Inr s'"
proof -
  let ?a = "agents s ! i"
  have ok: "agentOk s ?a" using inv i by (rule Inv_agentOk)
  have dok: "\<And>d. targetDepartment ?a = Some d \<Longrightarrow> d < length (departments s)"
    using agentOk_targets [OF ok] by blast
  have grp: "\<And>n. targetDepartment ?a \<noteq> None \<Longrightarrow>
      \<exists>r. getRandomPointInDepartment rnd n s (targetDepartment ?a) = Inr r"
    using dok getRandomPointInDepartment_total by fastforce
  show ?thesis
  proof (cases "state ?a")
    case ENTERING
    show ?thesis
    proof (cases "targetDepartment ?a = None")
      case True
      then show ?thesis
        using ENTERING
        by (simp add: updateAgentState_def caseENTERING_def Let_def split: option.splits)
    next
      case False
      from grp [OF False, of "rng s + 1"] obtain tp k where
        "getRandomPointInDepartment rnd (rng s + 1) s (targetDepartment ?a) = Inr (tp, k)"
        by fastforce
      then show ?thesis
        using ENTERING False
        by (simp add: updateAgentState_def caseENTERING_def Let_def split: option.splits)
    qed
  next
    case INSIDE_DEPT
    then have td: "targetDepartment ?a \<noteq> None" using ok by (simp add: agentOk_def)
    let ?a1 = "?a\<lparr>timeInDepartment := timeInDepartment ?a - delta\<rparr>"
    have mv: "\<And>n. \<exists>a2 k. insideMove rnd n s ?a1 = Inr (a2, k)
        \<and> targetDepartment a2 = targetDepartment ?a"
    proof -
      fix n
      from grp [OF td, of n] obtain tp k where
        "getRandomPointInDepartment rnd n s (targetDepartment ?a) = Inr (tp, k)"
        by fastforce
      then show "\<exists>a2 k. insideMove rnd n s ?a1 = Inr (a2, k)
        \<and> targetDepartment a2 = targetDepartment ?a"
        by (simp add: insideMove_def retarget_def split: option.splits)
    qed
    have lv: "\<And>a2. targetDepartment a2 = targetDepartment ?a \<Longrightarrow> \<exists>a3. insideLeave s a2 = Inr a3"
      using td by (auto simp: insideLeave_def split: option.splits)
    show ?thesis
    proof (cases "idleTimer ?a1 \<le> 0 \<and> rnd (rng s) < IDLE_CHANCE * delta * 1.5")
      case True
      then show ?thesis
        using INSIDE_DEPT by (auto simp: updateAgentState_def caseINSIDE_DEPT_def Let_def)
    next
      case False
      let ?n = "rng s + (if idleTimer ?a1 \<le> 0 then 1 else 0)"
      from mv [of ?n] obtain a2 k where
        m: "insideMove rnd ?n s ?a1 = Inr (a2, k)" and t2: "targetDepartment a2 = targetDepartment ?a"
        by blast
      from lv [OF t2] obtain a3 where l: "insideLeave s a2 = Inr a3" by blast
      show ?thesis
        using INSIDE_DEPT False m l
        by (auto simp: updateAgentState_def caseINSIDE_DEPT_def Let_def)
    qed
  qed (simp_all add: updateAgentState_def)
qed

lemma updateAgentState_calm:
  assumes "updateAgentState rnd delta i s = Inr s'" and "i < length (agents s)"
    and "agentOk s (agents s ! i)"
  shows "calm s' i"
  using assms
  by (auto simp: calm_def isWaiting_def updateAgentState_def caseIDLE_def caseWANDERING_def
      caseGOING_TO_DEPT_def caseENTERING_def caseINSIDE_DEPT_def caseGOING_TO_EXIT_def
      caseEXITING_def caseWAITING_def insideMove_def insideLeave_def retarget_def
      agentOk_def Let_def
      split: AGENT_STATE.splits option.splits if_splits sum.splits prod.splits)

lemma updateAgentMovement_Inv: "Inv s \<Longrightarrow> Inv (updateAgentMovement f i s)"
  by (simp add: updateAgentMovement_def Let_def Inv_setAgent_same)

lemma updateAgentMovement_calm:
  "i < length (agents s) \<Longrightarrow> calm s i \<Longrightarrow> calm (updateAgentMovement f i s) i"
  by (simp add: updateAgentMovement_def Let_def calm_def)

text \<open>
  The fallback of the collision checks: the agent forgets its goal and frees the portal
  it was crossing.
\<close>

lemma Inv_reset:
  assumes inv: "Inv s" and i: "i < length (agents s)"
    and w0: "\<not> isWaiting (state (agents s ! i))"
    and c2: "state a2 = state (agents s ! i)" "portalTarget a2 = portalTarget (agents s ! i)"
    and st: "state a' = WANDERING" and td: "targetDepartment a' = None"
  shows "Inv (setAgent i a' (releaseClaimed a2 s))"
proof -
  let ?a = "agents s ! i"
  have ok': "agentOk s a'" using st td by (simp add: agentOk_WANDERING)
  have w1: "\<not> isWaiting (state a')" and t1: "\<not> isTransit (state a')"
    using st by (simp_all add: isWaiting_def isTransit_def)
  show ?thesis
  proof (cases "isTransit (state ?a) \<and> portalTarget ?a \<noteq> None")
    case True
    then obtain p where p: "portalTarget ?a = Some p" by blast
    note h = Inv_transit [OF inv i _ p]
    have rel: "releaseClaimed a2 s = setPortal p ((portals s p)\<lparr>isOccupied := False\<rparr>) s"
      using True h p c2 by (simp add: releaseClaimed_def isTransit_def)
    show ?thesis
      unfolding rel
      by (rule Inv_setAgent_release) (use inv h True ok' w1 t1 in simp_all)
  next
    case False
    then have rel: "releaseClaimed a2 s = s"
      using c2 by (auto simp: releaseClaimed_def isTransit_def split: option.splits)
    have t0: "\<not> isTransit (state ?a) \<or> portalTarget ?a = None" using False by blast
    show ?thesis
      unfolding rel
      by (rule Inv_setAgent_neutral) (use inv i w0 t0 ok' w1 t1 in simp_all)
  qed
qed

lemma floorBoundary_Inv:
  assumes inv: "Inv s" and i: "i < length (agents s)"
  shows "Inv (floorBoundary i s)"
proof -
  let ?a = "agents s ! i"
  have nw: "inTransitGoal (state ?a) \<Longrightarrow> \<not> isWaiting (state ?a)"
    by (auto simp: inTransitGoal_def isWaiting_def)
  have same: "\<And>a'. state a' = state ?a \<Longrightarrow> portalTarget a' = portalTarget ?a \<Longrightarrow>
      targetDepartment a' = targetDepartment ?a \<Longrightarrow> previousState a' = previousState ?a \<Longrightarrow>
      Inv (setAgent i a' s)"
    by (rule Inv_setAgent_same) (use inv in simp_all)
  have reset: "\<And>a2 a'. inTransitGoal (state ?a) \<Longrightarrow> state a2 = state ?a \<Longrightarrow>
      portalTarget a2 = portalTarget ?a \<Longrightarrow> state a' = WANDERING \<Longrightarrow>
      targetDepartment a' = None \<Longrightarrow> Inv (setAgent i a' (releaseClaimed a2 s))"
    by (rule Inv_reset) (use inv i nw in simp_all)
  show ?thesis
    by (simp add: floorBoundary_def Let_def same reset)
qed

lemma floorBoundary_state:
  "i < length (agents s) \<Longrightarrow>
   state (agents (floorBoundary i s) ! i) = state (agents s ! i)
   \<or> state (agents (floorBoundary i s) ! i) = WANDERING"
  by (simp add: floorBoundary_def Let_def)

lemma floorBoundary_still:
  "i < length (agents s) \<Longrightarrow> velocity (agents s ! i) = Vector3 0 0 0 \<Longrightarrow>
   isWaiting (state (agents s ! i)) \<Longrightarrow>
   velocity (agents (floorBoundary i s) ! i) = Vector3 0 0 0"
  by (simp add: floorBoundary_def Let_def Vector3_def isWaiting_def inTransitGoal_def)

lemma deptCollision_Inv:
  assumes inv: "Inv s" and i: "i < length (agents s)"
    and w0: "\<not> isWaiting (state (agents s ! i))"
  shows "Inv (deptCollision rc origin direction far i s d)
     \<and> \<not> isWaiting (state (agents (deptCollision rc origin direction far i s d) ! i))"
proof -
  let ?a = "agents s ! i"
  have same: "\<And>a'. state a' = state ?a \<Longrightarrow> portalTarget a' = portalTarget ?a \<Longrightarrow>
      targetDepartment a' = targetDepartment ?a \<Longrightarrow> previousState a' = previousState ?a \<Longrightarrow>
      Inv (setAgent i a' s)"
    by (rule Inv_setAgent_same) (use inv in simp_all)
  have reset: "\<And>a2 a'. state a2 = state ?a \<Longrightarrow>
      portalTarget a2 = portalTarget ?a \<Longrightarrow> state a' = WANDERING \<Longrightarrow>
      targetDepartment a' = None \<Longrightarrow> Inv (setAgent i a' (releaseClaimed a2 s))"
    by (rule Inv_reset) (use inv i w0 in simp_all)
  show ?thesis
    using inv i w0
    by (simp add: deptCollision_def Let_def same reset isWaiting_def
        split: option.splits prod.splits)
qed

lemma foldl_deptCollision_Inv:
  assumes "Inv s" and "i < length (agents s)" and "\<not> isWaiting (state (agents s ! i))"
  shows "Inv (foldl (deptCollision rc origin direction far i) s ds)"
  using assms
proof (induction ds arbitrary: s)
  case Nil
  then show ?case by simp
next
  case (Cons d ds)
  note step = deptCollision_Inv [OF Cons.prems, of rc origin direction far d]
  show ?case
    using Cons.IH [of "deptCollision rc origin direction far i s d"] step Cons.prems(2)
    by simp
qed

lemma handleAgentEnvironmentCollisions_Inv:
  assumes inv: "Inv s" and i: "i < length (agents s)" and c: "calm s i"
  shows "Inv (handleAgentEnvironmentCollisions rc f i s)"
proof -
  let ?s1 = "floorBoundary i s"
  have inv1: "Inv ?s1" using inv i by (rule floorBoundary_Inv)
  have i1: "i < length (agents ?s1)" using i by simp
  show ?thesis
  proof (cases "isWaiting (state (agents s ! i))")
    case True
    then have "velocity (agents s ! i) = Vector3 0 0 0" using c by (simp add: calm_def)
    then have "velocity (agents ?s1 ! i) = Vector3 0 0 0"
      using floorBoundary_still [OF i _ True] by simp
    then have "lengthSq (velocity (agents ?s1 ! i)) < VELOCITY_THRESHOLD_SQ"
      by (simp add: lengthSq_def dot_def Vector3_def VELOCITY_THRESHOLD_SQ_def MODEL_SCALE_def)
    then show ?thesis
      using inv1 by (simp add: handleAgentEnvironmentCollisions_def Let_def)
  next
    case False
    then have "\<not> isWaiting (state (agents ?s1 ! i))"
      using floorBoundary_state [OF i] by (auto simp: isWaiting_def)
    then have "\<And>origin direction far ds.
        Inv (foldl (deptCollision rc origin direction far i) ?s1 ds)"
      using foldl_deptCollision_Inv [OF inv1 i1] by blast
    then show ?thesis
      using inv1 by (simp add: handleAgentEnvironmentCollisions_def Let_def)
  qed
qed

lemma agentStep_Inv:
  assumes inv: "Inv s" and i: "i < length (agents s)"
    and res: "agentStep rc rnd delta f i s = Inr s'"
  shows "Inv s'"
proof -
  from res obtain s1 where s1: "updateAgentState rnd delta i s = Inr s1"
    and s': "s' = handleAgentEnvironmentCollisions rc f i (updateAgentMovement f i s1)"
    by (auto simp: agentStep_def split: sum.splits)
  have inv1: "Inv s1" using inv i s1 by (rule updateAgentState_Inv)
  have i1: "i < length (agents s1)" using updateAgentState_frame [OF s1] i by simp
  have c1: "calm s1 i"
    using s1 i Inv_agentOk [OF inv i] by (rule updateAgentState_calm)
  show ?thesis
    unfolding s'
    by (rule handleAgentEnvironmentCollisions_Inv)
      (use inv1 i1 c1 in \<open>simp_all add: updateAgentMovement_Inv updateAgentMovement_calm\<close>)
qed

lemma agentStep_total:
  "Inv s \<Longrightarrow> i < length (agents s) \<Longrightarrow> \<exists>s'. agentStep rc rnd delta f i s = Inr s'"
  using updateAgentState_total [of s i rnd delta] by (auto simp: agentStep_def)

lemma forEachAgent_Inv:
  assumes "Inv s" and "\<forall>i \<in> set is. i < length (agents s)"
  shows "\<exists>s'. forEachAgent rc rnd delta f is s = Inr s' \<and> Inv s'"
  using assms
proof (induction "is" arbitrary: s)
  case Nil
  then show ?case by simp
next
  case (Cons i "is")
  have i: "i < length (agents s)" using Cons.prems(2) by simp
  from agentStep_total [OF Cons.prems(1) i] obtain s1 where
    s1: "agentStep rc rnd delta f i s = Inr s1" by blast
  have inv1: "Inv s1" using Cons.prems(1) i s1 by (rule agentStep_Inv)
  have l1: "length (agents s1) = length (agents s)" using agentStep_frame [OF s1] by simp
  from Cons.IH [OF inv1] Cons.prems(2) l1 obtain s' where
    "forEachAgent rc rnd delta f is s1 = Inr s' \<and> Inv s'" by auto
  then show ?case using s1 by simp
qed

lemma agentPairs_bounds: "(i, j) \<in> set (agentPairs n) \<Longrightarrow> i < j \<and> j < n"
  by (auto simp: agentPairs_def)

lemma collidePair_Inv:
  assumes inv: "Inv s" and ij: "fst ij \<noteq> snd ij"
  shows "Inv (collidePair s ij)"
proof -
  let ?i = "fst ij" and ?j = "snd ij"
  have one: "\<And>a'. state a' = state (agents s ! ?i) \<Longrightarrow>
      portalTarget a' = portalTarget (agents s ! ?i) \<Longrightarrow>
      targetDepartment a' = targetDepartment (agents s ! ?i) \<Longrightarrow>
      previousState a' = previousState (agents s ! ?i) \<Longrightarrow> Inv (setAgent ?i a' s)"
    by (rule Inv_setAgent_same) (use inv in simp_all)
  have two: "\<And>a' b'. Inv (setAgent ?i a' s) \<Longrightarrow> state b' = state (agents s ! ?j) \<Longrightarrow>
      portalTarget b' = portalTarget (agents s ! ?j) \<Longrightarrow>
      targetDepartment b' = targetDepartment (agents s ! ?j) \<Longrightarrow>
      previousState b' = previousState (agents s ! ?j) \<Longrightarrow>
      Inv (setAgent ?j b' (setAgent ?i a' s))"
    by (rule Inv_setAgent_same) (use ij in simp_all)
  show ?thesis
    using inv by (simp add: collidePair_def Let_def one two)
qed

lemma handleAgentAgentCollisions_Inv: "Inv s \<Longrightarrow> Inv (handleAgentAgentCollisions s)"
proof -
  have "\<And>ps. Inv s \<Longrightarrow> \<forall>ij \<in> set ps. fst ij \<noteq> snd ij \<Longrightarrow> Inv (foldl collidePair s ps)"
  proof -
    fix ps
    show "Inv s \<Longrightarrow> \<forall>ij \<in> set ps. fst ij \<noteq> snd ij \<Longrightarrow> Inv (foldl collidePair s ps)"
      by (induction ps arbitrary: s) (simp_all add: collidePair_Inv)
  qed
  moreover have "\<forall>ij \<in> set (agentPairs (length (agents s))). fst ij \<noteq> snd ij"
    using agentPairs_bounds by fastforce
  ultimately show "Inv s \<Longrightarrow> Inv (handleAgentAgentCollisions s)"
    by (simp add: handleAgentAgentCollisions_def)
qed

lemma checkQueue_Inv:
  assumes inv: "Inv s"
  shows "Inv (checkQueue r d s)"
proof (cases "\<not> isOccupied (portals s (d, r)) \<and> queue (portals s (d, r)) \<noteq> []")
  case False
  then show ?thesis using inv by (auto simp: checkQueue_def Let_def)
next
  case True
  then obtain i rest where qu: "queue (portals s (d, r)) = i # rest"
    by (cases "queue (portals s (d, r))") auto
  have free: "\<not> isOccupied (portals s (d, r))" using True by simp
  have mem: "i \<in> set (queue (portals s (d, r)))" by (simp add: qu)
  note wi = Inv_queue_member [OF inv mem]
  let ?c = "portals s (d, r)"
  let ?a' = "(agents s ! i)\<lparr>state := transitState r, velocity := passVelocity r ?c\<rparr>"
  let ?s' = "setAgent i ?a'
      (setPortal (d, r) (?c\<lparr>queue := rest, isOccupied := True\<rparr>)
         (setPortal (d, r) (?c\<lparr>queue := rest\<rparr>) s))"
  have eq: "checkQueue r d s = ?s'"
    using free qu wi by (simp add: checkQueue_def Let_def agentAt_def)
  have "Inv ?s'"
    by (rule Inv_promote [of s ?s' i ?a' "(d, r)" rest])
      (use inv qu free in \<open>simp_all add: portals_setPortal_fun\<close>)
  then show ?thesis by (simp add: eq)
qed

lemma processPortalQueues_Inv: "Inv s \<Longrightarrow> Inv (processPortalQueues s)"
proof -
  have "\<And>ds. Inv s \<Longrightarrow> Inv (foldl processDept s ds)"
  proof -
    fix ds
    show "Inv s \<Longrightarrow> Inv (foldl processDept s ds)"
      by (induction ds arbitrary: s) (simp_all add: processDept_def checkQueue_Inv)
  qed
  then show "Inv s \<Longrightarrow> Inv (processPortalQueues s)"
    by (simp add: processPortalQueues_def)
qed

lemma updateAgents_Inv:
  assumes inv: "Inv s"
  shows "\<exists>s'. updateAgents rc rnd delta s = Inr s' \<and> Inv s'"
proof (cases "isPaused s \<or> length (departments s) = 0")
  case True
  then show ?thesis using inv by (simp add: updateAgents_def)
next
  case False
  let ?s1 = "handleAgentAgentCollisions s"
  have inv1: "Inv ?s1" using inv by (rule handleAgentAgentCollisions_Inv)
  have "\<forall>i \<in> set [0..<length (agents ?s1)]. i < length (agents ?s1)" by simp
  with forEachAgent_Inv [OF inv1] obtain s2 where
    s2: "forEachAgent rc rnd delta (speed s * delta) [0..<length (agents ?s1)] ?s1 = Inr s2"
    and inv2: "Inv s2" by blast
  have "updateAgents rc rnd delta s = Inr (processPortalQueues s2)"
    using False s2 by (simp add: updateAgents_def Let_def)
  then show ?thesis using processPortalQueues_Inv [OF inv2] by simp
qed

lemma animate_Inv: "Inv s \<Longrightarrow> \<exists>s'. animate rc rnd delta s = Inr s' \<and> Inv s'"
  using updateAgents_Inv [of s rc rnd delta] by (simp add: animate_def)

lemma spawnOne_cleared:
  "list_all cleared (agents s) \<Longrightarrow> list_all cleared (agents (spawnOne rnd i s))"
  by (simp add: spawnOne_def Let_def cleared_def)

lemma spawnLoop_cleared:
  "list_all cleared (agents s) \<Longrightarrow> list_all cleared (agents (spawnLoop rnd n i s))"
proof (induction rnd n i s rule: spawnLoop.induct)
  case (1 rnd n i s)
  show ?case
  proof (cases "real i < n")
    case True
    have step: "spawnLoop rnd n i s = spawnLoop rnd n (Suc i) (spawnOne rnd i s)"
      using True by (subst spawnLoop.simps) simp
    show ?thesis
      unfolding step using "1.IH" [OF True] "1.prems" by (simp add: spawnOne_cleared)
  next
    case False
    then have "spawnLoop rnd n i s = s" by (subst spawnLoop.simps) simp
    then show ?thesis using "1.prems" by simp
  qed
qed

lemma spawnAgents_Inv:
  assumes "loadedGltfModel s" and "initialPortals s"
  shows "Inv (spawnAgents rnd n s)"
proof -
  let ?s' = "spawnAgents rnd n s"
  have "list_all cleared (agents (spawnLoop rnd n 0 (s\<lparr>agents := []\<rparr>)))"
    by (rule spawnLoop_cleared) simp
  then have cl: "\<And>j. j < length (agents ?s') \<Longrightarrow> cleared (agents ?s' ! j)"
    using assms(1) by (simp add: spawnAgents_def list_all_length)
  have po: "portals ?s' = portals s" using spawnAgents_frame by blast
  have nh: "\<And>j q. \<not> holdsPortal ?s' j q"
  proof -
    fix j and q :: portal_ref
    show "\<not> holdsPortal ?s' j q"
      using cl [of j] by (cases "snd q") (auto simp: holdsPortal_def cleared_def)
  qed
  have a: "agentsOk ?s'"
    using cl by (simp add: agentsOk_def cleared_def agentOk_WANDERING)
  have q: "queuesOk ?s'"
    using assms(2) by (simp add: queuesOk_def po initialPortals_def)
  have c: "occupancyOk ?s'"
    using assms(2) nh by (simp add: occupancyOk_def po initialPortals_def)
  show ?thesis using a q c by (simp add: Inv_def)
qed

lemma Inv_fields:
  "agents s' = agents s \<Longrightarrow> portals s' = portals s \<Longrightarrow> departments s' = departments s \<Longrightarrow>
   Inv s' = Inv s"
  by (simp add: Inv_def agentsOk_def queuesOk_def occupancyOk_def holdsPortal_def agentOk_def)

lemma reachable_Inv: "reachable s \<Longrightarrow> Inv s"
proof (induction rule: reachable.induct)
  case (spawn s0 rnd n)
  then show ?case by (simp add: spawnAgents_Inv)
next
  case (tick s rc rnd delta s')
  then show ?case using animate_Inv [of s rc rnd delta] by auto
next
  case (pause s)
  then show ?case using Inv_fields [of "toggleSimulation s" s] by (simp add: toggleSimulation_def)
next
  case (slider s v)
  then show ?case using Inv_fields [of "s\<lparr>speed := v\<rparr>" s] by simp
qed

section \<open>A run of the simulation\<close>

lemma agentPairs_3: "agentPairs (Suc (Suc (Suc 0))) = [(0, 1), (0, 2), (1, 2)]"
  by (simp add: agentPairs_def upt_rec)

text \<open>The definitions that a frame of up to three agents at the entry portal unfolds.\<close>

lemmas frame_defs = animate_def updateAgents_def Let_def produceSim_def
  handleAgentAgentCollisions_def agentPairs_3 collidePair_def wanderer_def
  upt_rec [of 0] upt_rec [of 1] upt_rec [of 2] agentStep_def updateAgentState_def
  caseWAITING_def caseWANDERING_def caseGOING_TO_DEPT_def caseENTERING_def
  getRandomPointInDepartment_def updateAgentMovement_def
  handleAgentEnvironmentCollisions_def floorBoundary_def
  bouncesX_def bouncesZ_def Vector3_def MODEL_SCALE_def lengthSq_def dot_def
  VELOCITY_THRESHOLD_SQ_def inTransitGoal_def distanceTo_def distanceToSquared_def sub_def
  PORTAL_THRESHOLD_def randFloat_def randFloatSpread_def MIN_TIME_IN_DEPT_def
  MAX_TIME_IN_DEPT_def velocityToward_def normalize_def vlength_def divideScalar_def
  setY_def add_def bump_def MIN_AGENT_SEPARATION_def clampLength_def
  DEPT_VISIT_CHANCE_def IDLE_CHANCE_def entryPortal_def deptCollision_def
  processPortalQueues_def processDept_def checkQueue_def agentAt_def
  produceEntry_eval produceExit_eval AGENT_MOVE_SPEED_def negate_def multiplyScalar_def
  setAgent_def setPortal_def

lemma spawnedSim_spawn: "spawnAgents portalDraws 3 produceSim = spawnedSim"
  by (simp add: spawnAgents_def spawnLoop.simps [of _ _ 0] spawnLoop.simps [of _ _ "Suc 0"]
      spawnLoop.simps [of _ _ "Suc (Suc 0)"] spawnLoop.simps [of _ _ "Suc (Suc (Suc 0))"]
      spawnOne_def Let_def portalDraws_def produceSim_def spawnedSim_def wanderer_def
      randFloatSpread_def randFloat_def Vector3_def normalize_def vlength_def lengthSq_def
      dot_def divideScalar_def multiplyScalar_def bump_def AGENT_MOVE_SPEED_def
      MODEL_SCALE_def)

lemma spawnedSim_frame:
  "animate (\<lambda>_ _ _ _. None) (\<lambda>n. if n < 17 then 1 / 2 else 0) (1 / 60) spawnedSim
     = Inr headingSim"
  by (simp add: frame_defs spawnedSim_def headingSim_def)

lemma headingSim_frame:
  "animate (\<lambda>_ _ _ _. None) (\<lambda>_. 0) 2 headingSim = Inr arrivalSim"
  by (simp add: frame_defs headingSim_def arrivalSim_def numeral_2_eq_2)

lemma arrivalSim_reachable: "reachable arrivalSim"
proof -
  have "reachable spawnedSim"
    using reachable.spawn [OF produce_initial, of portalDraws 3] by (simp add: spawnedSim_spawn)
  then have "reachable headingSim" using spawnedSim_frame by (rule reachable.tick)
  then show ?thesis using headingSim_frame by (rule reachable.tick)
qed

lemma arrivalSim_fields:
  "queue (portals arrivalSim (0, EntryPortal)) = [2]"
  "isOccupied (portals arrivalSim (0, EntryPortal))"
  "state (agents arrivalSim ! 0) = GOING_TO_DEPT"
  "state (agents arrivalSim ! 2) = WAITING_ENTRY"
  "holdsPortal arrivalSim 1 (0, EntryPortal)"
  "\<not> isOccupied (portals arrivalSim (0, ExitPortal))"
  by (simp_all add: arrivalSim_def produceSim_def wanderer_def holdsPortal_def
      produceExit_eval)

section \<open>Portal occupancy\<close>

text \<open>A frame that starts in a reachable state ends normally, in a reachable state.\<close>

lemma reachable_animate_total:
  "reachable s \<Longrightarrow> \<exists>s'. animate rc rnd delta s = Inr s' \<and> reachable s'"
  using animate_Inv [OF reachable_Inv, of s rc rnd delta] reachable.tick by blast

text \<open>
  C1. In every reachable state, and for every portal: if the portal is occupied, exactly
  one agent is in the transit state of the portal's role (\<open>ENTERING\<close> for an entry
  portal, \<open>EXITING\<close> for an exit portal) with the portal as its target; if it is free,
  no agent is.
\<close>

theorem portal_occupancy_exclusive:
  assumes "reachable s"
  shows "(isOccupied (portals s p) \<longrightarrow> (\<exists>!i. holdsPortal s i p))
     \<and> (\<not> isOccupied (portals s p) \<longrightarrow> (\<forall>i. \<not> holdsPortal s i p))"
proof -
  have inv: "Inv s" using assms by (rule reachable_Inv)
  show ?thesis
    using Inv_occupied [OF inv, of p] Inv_free [OF inv, of p] Inv_holder_unique [OF inv, of _ p]
    by blast
qed


theorem portal_occupancy_exclusive_witness:
  "reachable (spawnAgents (\<lambda>_. 1 / 4) 2 produceSim)
   \<and> \<not> isOccupied (portals (spawnAgents (\<lambda>_. 1 / 4) 2 produceSim) (0, EntryPortal))
   \<and> (\<forall>i. \<not> holdsPortal (spawnAgents (\<lambda>_. 1 / 4) 2 produceSim) i (0, EntryPortal))
   \<and> reachable arrivalSim
   \<and> isOccupied (portals arrivalSim (0, EntryPortal))
   \<and> holdsPortal arrivalSim 1 (0, EntryPortal)
   \<and> (\<exists>!i. holdsPortal arrivalSim i (0, EntryPortal))
   \<and> \<not> isOccupied (portals arrivalSim (0, ExitPortal))
   \<and> (\<forall>i. \<not> holdsPortal arrivalSim i (0, ExitPortal))"
proof -
  let ?s = "spawnAgents (\<lambda>_. 1 / 4) 2 produceSim"
  have r: "reachable ?s"
    by (rule reachable.spawn) (rule produce_initial)+
  have "portals ?s = portals produceSim" using spawnAgents_frame by blast
  then have f: "\<not> isOccupied (portals ?s (0, EntryPortal))"
    using produce_initial(2) by (simp add: initialPortals_def)
  have a: "\<forall>i. \<not> holdsPortal ?s i (0, EntryPortal)"
    using portal_occupancy_exclusive [OF r, of "(0, EntryPortal)"] f by blast
  have b: "\<exists>!i. holdsPortal arrivalSim i (0, EntryPortal)"
    using portal_occupancy_exclusive [OF arrivalSim_reachable, of "(0, EntryPortal)"]
      arrivalSim_fields(2) by blast
  have c: "\<forall>i. \<not> holdsPortal arrivalSim i (0, ExitPortal)"
    using portal_occupancy_exclusive [OF arrivalSim_reachable, of "(0, ExitPortal)"]
      arrivalSim_fields(6) by blast
  show ?thesis
    using r f a arrivalSim_reachable arrivalSim_fields(2,5,6) b c by blast
qed

section \<open>The order of the queues\<close>

lemma releaseClaimed_queue [simp]:
  "queue (portals (releaseClaimed a s) p) = queue (portals s p)"
  by (simp add: releaseClaimed_def split: option.splits)

text \<open>
  \<open>processPortalQueues\<close> takes at most the first entry off a queue, and visits each
  portal once.
\<close>

lemma checkQueue_other:
  "q \<noteq> (d, r) \<Longrightarrow> portals (checkQueue r d s) q = portals s q"
  by (simp add: checkQueue_def Let_def split: list.splits option.splits)

lemma checkQueue_queue:
  "queue (portals (checkQueue r d s) (d, r)) = queue (portals s (d, r))
   \<or> (queue (portals s (d, r)) \<noteq> []
      \<and> queue (portals (checkQueue r d s) (d, r)) = tl (queue (portals s (d, r))))"
  by (simp add: checkQueue_def Let_def split: list.splits option.splits)

lemma processDept_other:
  "fst q \<noteq> d \<Longrightarrow> portals (processDept s d) q = portals s q"
  by (cases q) (simp add: processDept_def checkQueue_other)

lemma processDept_queue:
  "queue (portals (processDept s d) q) = queue (portals s q)
   \<or> (queue (portals s q) \<noteq> []
      \<and> queue (portals (processDept s d) q) = tl (queue (portals s q)))"
proof (cases q)
  case (Pair d' r)
  show ?thesis
  proof (cases "d' = d")
    case False
    then show ?thesis using Pair by (simp add: processDept_other)
  next
    case True
    show ?thesis
    proof (cases r)
      case EntryPortal
      have "portals (processDept s d) (d, EntryPortal)
          = portals (checkQueue EntryPortal d s) (d, EntryPortal)"
        by (simp add: processDept_def checkQueue_other)
      then show ?thesis
        using checkQueue_queue [of EntryPortal d s] Pair True EntryPortal by simp
    next
      case ExitPortal
      have "portals (checkQueue EntryPortal d s) (d, ExitPortal) = portals s (d, ExitPortal)"
        by (simp add: checkQueue_other)
      then show ?thesis
        using checkQueue_queue [of ExitPortal d "checkQueue EntryPortal d s"] Pair True ExitPortal
        by (simp add: processDept_def)
    qed
  qed
qed

lemma foldl_processDept_other:
  "fst q \<notin> set ds \<Longrightarrow> portals (foldl processDept s ds) q = portals s q"
  by (induction ds arbitrary: s) (simp_all add: processDept_other)

lemma foldl_processDept_queue:
  "distinct ds \<Longrightarrow>
   queue (portals (foldl processDept s ds) q) = queue (portals s q)
   \<or> (queue (portals s q) \<noteq> []
      \<and> queue (portals (foldl processDept s ds) q) = tl (queue (portals s q)))"
proof (induction ds arbitrary: s)
  case Nil
  then show ?case by simp
next
  case (Cons d ds)
  show ?case
  proof (cases "fst q = d")
    case True
    then have "fst q \<notin> set ds" using Cons.prems by auto
    then have "portals (foldl processDept (processDept s d) ds) q = portals (processDept s d) q"
      by (rule foldl_processDept_other)
    then show ?thesis using processDept_queue [of s d q] by simp
  next
    case False
    then have "portals (processDept s d) q = portals s q" by (simp add: processDept_other)
    then show ?thesis using Cons.IH [of "processDept s d"] Cons.prems by simp
  qed
qed

lemma processPortalQueues_queue:
  "queue (portals (processPortalQueues s) q) = queue (portals s q)
   \<or> (queue (portals s q) \<noteq> []
      \<and> queue (portals (processPortalQueues s) q) = tl (queue (portals s q)))"
  unfolding processPortalQueues_def by (rule foldl_processDept_queue) simp

text \<open>An agent that holds a portal is not touched by \<open>processPortalQueues\<close>.\<close>

lemma checkQueue_holds:
  assumes inv: "Inv s" and h: "holdsPortal s i p"
  shows "holdsPortal (checkQueue r d s) i p"
proof (cases "\<not> isOccupied (portals s (d, r)) \<and> queue (portals s (d, r)) \<noteq> []")
  case False
  then have "checkQueue r d s = s" by (auto simp: checkQueue_def Let_def)
  then show ?thesis using h by simp
next
  case True
  then obtain j rest where qu: "queue (portals s (d, r)) = j # rest"
    by (cases "queue (portals s (d, r))") auto
  have free: "\<not> isOccupied (portals s (d, r))" using True by simp
  have mem: "j \<in> set (queue (portals s (d, r)))" by (simp add: qu)
  note wj = Inv_queue_member [OF inv mem]
  have ji: "j \<noteq> i" using wj h by (auto simp: holdsPortal_def)
  have pd: "p \<noteq> (d, r)" using Inv_free [OF inv free, of i] h by blast
  have "agents (checkQueue r d s) ! i = agents s ! i"
    using free qu wj ji by (simp add: checkQueue_def Let_def agentAt_def)
  then show ?thesis
    using h by (simp add: holdsPortal_def)
qed

lemma processDept_holds:
  "Inv s \<Longrightarrow> holdsPortal s i p \<Longrightarrow> holdsPortal (processDept s d) i p"
  by (simp add: processDept_def checkQueue_holds checkQueue_Inv)

lemma processDept_Inv: "Inv s \<Longrightarrow> Inv (processDept s d)"
  by (simp add: processDept_def checkQueue_Inv)

lemma foldl_processDept_Inv: "Inv s \<Longrightarrow> Inv (foldl processDept s ds)"
  by (induction ds arbitrary: s) (simp_all add: processDept_Inv)

lemma foldl_processDept_holds:
  "Inv s \<Longrightarrow> holdsPortal s i p \<Longrightarrow> holdsPortal (foldl processDept s ds) i p"
  by (induction ds arbitrary: s) (simp_all add: processDept_Inv processDept_holds)

text \<open>The agent that \<open>processPortalQueues\<close> takes off a queue holds the portal afterwards.\<close>

lemma checkQueue_pop:
  assumes inv: "Inv s" and qu: "queue (portals s (d, r)) = i # rest"
  shows "queue (portals (checkQueue r d s) (d, r)) = i # rest
     \<or> holdsPortal (checkQueue r d s) i (d, r)"
proof (cases "isOccupied (portals s (d, r))")
  case True
  then have "checkQueue r d s = s" by (simp add: checkQueue_def Let_def)
  then show ?thesis using qu by simp
next
  case False
  have mem: "i \<in> set (queue (portals s (d, r)))" by (simp add: qu)
  note wi = Inv_queue_member [OF inv mem]
  have "holdsPortal (checkQueue r d s) i (d, r)"
    using False qu wi by (simp add: checkQueue_def Let_def agentAt_def holdsPortal_def)
  then show ?thesis by simp
qed

lemma processDept_pop:
  assumes inv: "Inv s" and qu: "queue (portals s p) = i # rest"
  shows "queue (portals (processDept s d) p) = i # rest \<or> holdsPortal (processDept s d) i p"
proof (cases p)
  case (Pair d' r)
  show ?thesis
  proof (cases "d' = d")
    case False
    then show ?thesis using Pair qu by (simp add: processDept_other)
  next
    case True
    let ?s1 = "checkQueue EntryPortal d s"
    have inv1: "Inv ?s1" using inv by (rule checkQueue_Inv)
    show ?thesis
    proof (cases r)
      case EntryPortal
      have same: "portals (processDept s d) (d, EntryPortal) = portals ?s1 (d, EntryPortal)"
        by (simp add: processDept_def checkQueue_other)
      from checkQueue_pop [OF inv, of d EntryPortal i rest] qu Pair True EntryPortal
      have "queue (portals ?s1 (d, EntryPortal)) = i # rest
          \<or> holdsPortal ?s1 i (d, EntryPortal)" by simp
      then show ?thesis
        using same checkQueue_holds [OF inv1, of i "(d, EntryPortal)" ExitPortal d]
          Pair True EntryPortal
        by (auto simp: processDept_def)
    next
      case ExitPortal
      have "portals ?s1 (d, ExitPortal) = portals s (d, ExitPortal)"
        by (simp add: checkQueue_other)
      then have "queue (portals ?s1 (d, ExitPortal)) = i # rest"
        using qu Pair True ExitPortal by simp
      from checkQueue_pop [OF inv1 this] show ?thesis
        using Pair True ExitPortal by (simp add: processDept_def)
    qed
  qed
qed

lemma foldl_processDept_pop:
  assumes "Inv s" and "distinct ds" and "queue (portals s p) = i # rest"
  shows "queue (portals (foldl processDept s ds) p) = i # rest
     \<or> holdsPortal (foldl processDept s ds) i p"
  using assms
proof (induction ds arbitrary: s)
  case Nil
  then show ?case by simp
next
  case (Cons d ds)
  let ?s1 = "processDept s d"
  have inv1: "Inv ?s1" using Cons.prems(1) by (rule processDept_Inv)
  from processDept_pop [OF Cons.prems(1,3), of d]
  show ?case
  proof
    assume "queue (portals ?s1 p) = i # rest"
    then show ?thesis using Cons.IH [OF inv1] Cons.prems(2) by simp
  next
    assume "holdsPortal ?s1 i p"
    then show ?thesis using foldl_processDept_holds [OF inv1] by simp
  qed
qed

lemma processPortalQueues_pop:
  "Inv s \<Longrightarrow> queue (portals s p) = i # rest \<Longrightarrow>
   queue (portals (processPortalQueues s) p) = i # rest
   \<or> holdsPortal (processPortalQueues s) i p"
  unfolding processPortalQueues_def by (rule foldl_processDept_pop) simp_all

lemma animate_updateAgents: "animate rc rnd delta s = updateAgents rc rnd delta s"
  by (simp add: animate_def updateAgents_def)

text \<open>
  The state machine is the only writer of a queue in the callback of an agent, and all
  it does is \<open>push\<close>: the agent \<open>i\<close> whose turn it is joins the back of the queue of its
  portal target when it arrives there on its way (\<open>GOING_TO_DEPT\<close> or \<open>GOING_TO_EXIT\<close>)
  and finds it occupied. No other agent is touched.
\<close>

lemma updateAgentState_push:
  assumes "updateAgentState rnd delta i s = Inr s'"
  shows "queue (portals s' p) = queue (portals s p)
     \<or> (queue (portals s' p) = queue (portals s p) @ [i]
        \<and> portalTarget (agents s ! i) = Some p
        \<and> (state (agents s ! i) = GOING_TO_DEPT \<or> state (agents s ! i) = GOING_TO_EXIT))"
  using assms
  by (auto simp: updateAgentState_def caseIDLE_def caseWANDERING_def
      caseGOING_TO_DEPT_def caseENTERING_def caseINSIDE_DEPT_def caseGOING_TO_EXIT_def
      caseEXITING_def caseWAITING_def Let_def
      split: AGENT_STATE.splits option.splits if_splits sum.splits prod.splits)

lemma updateAgentState_others:
  assumes "updateAgentState rnd delta i s = Inr s'" and "j \<noteq> i"
  shows "agents s' ! j = agents s ! j"
  using assms
  by (auto simp: updateAgentState_def caseIDLE_def caseWANDERING_def
      caseGOING_TO_DEPT_def caseENTERING_def caseINSIDE_DEPT_def caseGOING_TO_EXIT_def
      caseEXITING_def caseWAITING_def Let_def
      split: AGENT_STATE.splits option.splits if_splits sum.splits prod.splits)

lemma updateAgentMovement_others:
  "j \<noteq> i \<Longrightarrow> agents (updateAgentMovement f i s) ! j = agents s ! j"
  by (simp add: updateAgentMovement_def Let_def)

lemma floorBoundary_others:
  "j \<noteq> i \<Longrightarrow> agents (floorBoundary i s) ! j = agents s ! j"
  by (simp add: floorBoundary_def Let_def)

lemma floorBoundary_queue [simp]:
  "queue (portals (floorBoundary i s) p) = queue (portals s p)"
  by (simp add: floorBoundary_def Let_def)

lemma deptCollision_others:
  "j \<noteq> i \<Longrightarrow> agents (deptCollision rc origin direction far i s d) ! j = agents s ! j"
  by (simp add: deptCollision_def Let_def split: option.splits prod.splits)

lemma deptCollision_queue [simp]:
  "queue (portals (deptCollision rc origin direction far i s d) p) = queue (portals s p)"
  by (simp add: deptCollision_def Let_def split: option.splits prod.splits)

lemma foldl_deptCollision_others:
  "j \<noteq> i \<Longrightarrow> agents (foldl (deptCollision rc origin direction far i) s ds) ! j = agents s ! j"
  by (induction ds arbitrary: s) (simp_all add: deptCollision_others)

lemma foldl_deptCollision_queue [simp]:
  "queue (portals (foldl (deptCollision rc origin direction far i) s ds) p) = queue (portals s p)"
  by (induction ds arbitrary: s) simp_all

lemma handleAgentEnvironmentCollisions_others:
  "j \<noteq> i \<Longrightarrow> agents (handleAgentEnvironmentCollisions rc f i s) ! j = agents s ! j"
  by (simp add: handleAgentEnvironmentCollisions_def Let_def foldl_deptCollision_others
      floorBoundary_others)

lemma handleAgentEnvironmentCollisions_queue [simp]:
  "queue (portals (handleAgentEnvironmentCollisions rc f i s) p) = queue (portals s p)"
  by (simp add: handleAgentEnvironmentCollisions_def Let_def)

lemma agentStep_others:
  assumes "agentStep rc rnd delta f i s = Inr s'" and "j \<noteq> i"
  shows "agents s' ! j = agents s ! j"
proof -
  from assms(1) obtain s1 where s1: "updateAgentState rnd delta i s = Inr s1"
    and s': "s' = handleAgentEnvironmentCollisions rc f i (updateAgentMovement f i s1)"
    by (auto simp: agentStep_def split: sum.splits)
  show ?thesis
    unfolding s'
    by (simp add: handleAgentEnvironmentCollisions_others updateAgentMovement_others
        updateAgentState_others [OF s1] assms(2))
qed

lemma agentStep_push:
  assumes "agentStep rc rnd delta f i s = Inr s'"
  shows "queue (portals s' p) = queue (portals s p)
     \<or> (queue (portals s' p) = queue (portals s p) @ [i]
        \<and> portalTarget (agents s ! i) = Some p
        \<and> (state (agents s ! i) = GOING_TO_DEPT \<or> state (agents s ! i) = GOING_TO_EXIT))"
proof -
  from assms(1) obtain s1 where s1: "updateAgentState rnd delta i s = Inr s1"
    and s': "s' = handleAgentEnvironmentCollisions rc f i (updateAgentMovement f i s1)"
    by (auto simp: agentStep_def split: sum.splits)
  have "queue (portals s' p) = queue (portals s1 p)" unfolding s' by simp
  then show ?thesis using updateAgentState_push [OF s1, of p] by simp
qed

text \<open>
  \<open>agents.forEach\<close> visits the agents in the order of the list, so the agents that join
  a queue in one frame join in that order.
\<close>

lemma forEachAgent_push:
  assumes "forEachAgent rc rnd delta f is s = Inr s'" and "sorted_wrt (<) is"
  shows "\<exists>new. queue (portals s' p) = queue (portals s p) @ new
     \<and> sorted_wrt (<) new \<and> set new \<subseteq> set is
     \<and> (\<forall>B \<in> set new. portalTarget (agents s ! B) = Some p
            \<and> (state (agents s ! B) = GOING_TO_DEPT \<or> state (agents s ! B) = GOING_TO_EXIT))"
  using assms
proof (induction "is" arbitrary: s)
  case Nil
  then show ?case by simp
next
  case (Cons i "is")
  from Cons.prems(1) obtain s1 where s1: "agentStep rc rnd delta f i s = Inr s1"
    and rest: "forEachAgent rc rnd delta f is s1 = Inr s'"
    by (auto split: sum.splits)
  have srt: "sorted_wrt (<) is" and low: "\<forall>x \<in> set is. i < x"
    using Cons.prems(2) by simp_all
  from Cons.IH [OF rest srt] obtain new where
    q: "queue (portals s' p) = queue (portals s1 p) @ new"
    and sn: "sorted_wrt (<) new" and sub: "set new \<subseteq> set is"
    and arr: "\<forall>B \<in> set new. portalTarget (agents s1 ! B) = Some p
            \<and> (state (agents s1 ! B) = GOING_TO_DEPT \<or> state (agents s1 ! B) = GOING_TO_EXIT)"
    by blast
  have same: "\<And>B. B \<in> set new \<Longrightarrow> agents s1 ! B = agents s ! B"
  proof -
    fix B
    assume "B \<in> set new"
    then have "B \<noteq> i" using sub low by auto
    then show "agents s1 ! B = agents s ! B" using agentStep_others [OF s1] by simp
  qed
  have arr': "\<forall>B \<in> set new. portalTarget (agents s ! B) = Some p
            \<and> (state (agents s ! B) = GOING_TO_DEPT \<or> state (agents s ! B) = GOING_TO_EXIT)"
    using arr same by simp
  from agentStep_push [OF s1, of p] show ?case
  proof
    assume "queue (portals s1 p) = queue (portals s p)"
    then have "queue (portals s' p) = queue (portals s p) @ new" using q by simp
    moreover have "set new \<subseteq> set (i # is)" using sub by auto
    ultimately show ?thesis using sn arr' by blast
  next
    assume a: "queue (portals s1 p) = queue (portals s p) @ [i]
        \<and> portalTarget (agents s ! i) = Some p
        \<and> (state (agents s ! i) = GOING_TO_DEPT \<or> state (agents s ! i) = GOING_TO_EXIT)"
    then have e: "queue (portals s' p) = queue (portals s p) @ (i # new)" using q by simp
    have s2: "sorted_wrt (<) (i # new)" using sn sub low by auto
    have sb: "set (i # new) \<subseteq> set (i # is)" using sub by auto
    have ar: "\<forall>B \<in> set (i # new). portalTarget (agents s ! B) = Some p
            \<and> (state (agents s ! B) = GOING_TO_DEPT \<or> state (agents s ! B) = GOING_TO_EXIT)"
      using a arr' by simp
    show ?thesis using e s2 sb ar by blast
  qed
qed

text \<open>The separation pass changes velocities and positions only.\<close>

lemma collidePair_states:
  "map state (agents (collidePair s ij)) = map state (agents s)
   \<and> map portalTarget (agents (collidePair s ij)) = map portalTarget (agents s)"
  by (simp add: collidePair_def Let_def map_update)

lemma handleAgentAgentCollisions_states:
  "map state (agents (handleAgentAgentCollisions s)) = map state (agents s)
   \<and> map portalTarget (agents (handleAgentAgentCollisions s)) = map portalTarget (agents s)"
proof -
  have "\<And>ps. map state (agents (foldl collidePair s ps)) = map state (agents s)
   \<and> map portalTarget (agents (foldl collidePair s ps)) = map portalTarget (agents s)"
  proof -
    fix ps
    show "map state (agents (foldl collidePair s ps)) = map state (agents s)
      \<and> map portalTarget (agents (foldl collidePair s ps)) = map portalTarget (agents s)"
      by (induction ps arbitrary: s) (simp_all add: collidePair_states)
  qed
  then show ?thesis by (simp add: handleAgentAgentCollisions_def)
qed

lemma handleAgentAgentCollisions_nth:
  assumes "i < length (agents s)"
  shows "state (agents (handleAgentAgentCollisions s) ! i) = state (agents s ! i)"
    and "portalTarget (agents (handleAgentAgentCollisions s) ! i) = portalTarget (agents s ! i)"
proof -
  have l: "i < length (agents (handleAgentAgentCollisions s))" using assms by simp
  show "state (agents (handleAgentAgentCollisions s) ! i) = state (agents s ! i)"
    using nth_map [OF l, of state] nth_map [OF assms, of state]
      handleAgentAgentCollisions_states [of s] by simp
  show "portalTarget (agents (handleAgentAgentCollisions s) ! i) = portalTarget (agents s ! i)"
    using nth_map [OF l, of portalTarget] nth_map [OF assms, of portalTarget]
      handleAgentAgentCollisions_states [of s] by simp
qed

text \<open>
  A whole call of \<open>updateAgents\<close>: the agents that arrive are appended, then
  \<open>processPortalQueues\<close> takes at most the first entry off, and that agent holds the
  portal.
\<close>

lemma agentOk_goingState:
  assumes "agentOk s a" and "portalTarget a = Some p"
    and "state a = GOING_TO_DEPT \<or> state a = GOING_TO_EXIT"
  shows "state a = goingState (snd p)"
proof -
  from assms(3) show ?thesis
  proof
    assume g: "state a = GOING_TO_DEPT"
    then have "snd p = EntryPortal" using agentOk_role [OF assms(1) _ assms(2)] by simp
    then show ?thesis using g by simp
  next
    assume g: "state a = GOING_TO_EXIT"
    then have "snd p = ExitPortal" using agentOk_role [OF assms(1) _ assms(2)] by simp
    then show ?thesis using g by simp
  qed
qed

lemma frame_queue:
  assumes inv: "Inv s" and up: "updateAgents rc rnd delta s = Inr s'"
  shows "\<exists>new. distinct (queue (portals s p) @ new) \<and> sorted_wrt (<) new
     \<and> (\<forall>B \<in> set new. state (agents s ! B) = goingState (snd p)
            \<and> portalTarget (agents s ! B) = Some p)
     \<and> (queue (portals s' p) = queue (portals s p) @ new
        \<or> (\<exists>A rest. queue (portals s p) @ new = A # rest \<and> queue (portals s' p) = rest
              \<and> holdsPortal s' A p \<and> isOccupied (portals s' p)))"
proof (cases "isPaused s \<or> length (departments s) = 0")
  case True
  then have "s' = s" using up by (simp add: updateAgents_def)
  then show ?thesis using Inv_queue_distinct [OF inv, of p] by (intro exI [of _ "[]"]) simp
next
  case False
  let ?s1 = "handleAgentAgentCollisions s"
  from up False obtain s2 where
    s2: "forEachAgent rc rnd delta (speed s * delta) [0..<length (agents ?s1)] ?s1 = Inr s2"
    and s': "s' = processPortalQueues s2"
    by (auto simp: updateAgents_def Let_def split: sum.splits)
  have inv1: "Inv ?s1" using inv by (rule handleAgentAgentCollisions_Inv)
  have inv2: "Inv s2"
    using forEachAgent_Inv [OF inv1, of "[0..<length (agents ?s1)]" rc rnd delta "speed s * delta"]
      s2 by auto
  have inv': "Inv s'" unfolding s' using inv2 by (rule processPortalQueues_Inv)
  from forEachAgent_push [OF s2, of p] obtain new where
    q2: "queue (portals s2 p) = queue (portals s p) @ new"
    and sn: "sorted_wrt (<) new" and sub: "set new \<subseteq> {0..<length (agents s)}"
    and arr: "\<forall>B \<in> set new. portalTarget (agents ?s1 ! B) = Some p
      \<and> (state (agents ?s1 ! B) = GOING_TO_DEPT \<or> state (agents ?s1 ! B) = GOING_TO_EXIT)"
    by auto
  have d: "distinct (queue (portals s p) @ new)"
    using Inv_queue_distinct [OF inv2, of p] q2 by simp
  have going: "\<forall>B \<in> set new. state (agents s ! B) = goingState (snd p)
            \<and> portalTarget (agents s ! B) = Some p"
  proof
    fix B
    assume B: "B \<in> set new"
    then have l: "B < length (agents s)" using sub by auto
    have pt: "portalTarget (agents s ! B) = Some p"
      and st: "state (agents s ! B) = GOING_TO_DEPT \<or> state (agents s ! B) = GOING_TO_EXIT"
      using arr B handleAgentAgentCollisions_nth [OF l] by auto
    show "state (agents s ! B) = goingState (snd p) \<and> portalTarget (agents s ! B) = Some p"
      using agentOk_goingState [OF Inv_agentOk [OF inv l] pt st] pt by simp
  qed
  have last: "queue (portals s' p) = queue (portals s p) @ new
        \<or> (\<exists>A rest. queue (portals s p) @ new = A # rest \<and> queue (portals s' p) = rest
              \<and> holdsPortal s' A p \<and> isOccupied (portals s' p))"
  proof (cases "queue (portals s' p) = queue (portals s2 p)")
    case True
    then show ?thesis using q2 by simp
  next
    case False
    then have ne: "queue (portals s2 p) \<noteq> []"
      and tl: "queue (portals s' p) = tl (queue (portals s2 p))"
      using processPortalQueues_queue [of s2 p] unfolding s' by auto
    from ne obtain A rest where ar: "queue (portals s2 p) = A # rest"
      by (cases "queue (portals s2 p)") auto
    have r: "queue (portals s' p) = rest" using tl ar by simp
    have "queue (portals s' p) \<noteq> A # rest" using r by simp
    then have h: "holdsPortal s' A p"
      using processPortalQueues_pop [OF inv2 ar] unfolding s' by blast
    have "isOccupied (portals s' p)" using Inv_free [OF inv', of p A] h by blast
    then show ?thesis using ar r h q2 by auto
  qed
  show ?thesis using d sn going last by blast
qed

text \<open>
  C2. Queue FIFO. Let \<open>s\<close> satisfy the portal protocol, as every reachable state does
  (\<open>reachable_Inv\<close>). A frame from \<open>s\<close> ends normally in a state \<open>s'\<close> that satisfies the
  protocol again, and for every portal \<open>p\<close> there is a list \<open>new\<close> of the agents that
  arrive at \<open>p\<close> in this frame such that:
  \<^item> the agents of \<open>new\<close> were on their way to \<open>p\<close> when the frame started and were not
    in its queue, and \<open>new\<close> lists them in the order in which the frame visits the
    agents, which is the order in which they call \<open>push\<close>;
  \<^item> the queue of \<open>p\<close> after the frame is the old queue followed by \<open>new\<close>, either
    whole or without its first entry; an entry that has been taken off is the agent
    that now holds \<open>p\<close> in the transit state, and \<open>p\<close> is occupied;
  \<^item> every agent in the queue after the frame is in the waiting state of \<open>p\<close>;
  \<^item> hence, whenever \<open>A\<close> has joined before \<open>B\<close> (stands before \<open>B\<close> in the old queue
    followed by \<open>new\<close>), after the frame either both are queued with the same agents
    between them and at most the first agent before them gone, or \<open>A\<close> was the first
    and has been promoted while \<open>B\<close> is still queued: \<open>B\<close> is never taken before \<open>A\<close>.
  The two other operations on a running simulation, the pause button and the speed
  slider, leave the portals as they are.
\<close>

theorem queue_fifo:
  assumes inv: "Inv s"
  shows "\<exists>s' new.
      animate rc rnd delta s = Inr s' \<and> Inv s'
    \<and> distinct (queue (portals s p) @ new) \<and> sorted_wrt (<) new
    \<and> (\<forall>B \<in> set new. state (agents s ! B) = goingState (snd p)
           \<and> portalTarget (agents s ! B) = Some p)
    \<and> (queue (portals s' p) = queue (portals s p) @ new
       \<or> (\<exists>A rest. queue (portals s p) @ new = A # rest \<and> queue (portals s' p) = rest
             \<and> holdsPortal s' A p \<and> isOccupied (portals s' p)))
    \<and> (\<forall>B \<in> set (queue (portals s' p)). state (agents s' ! B) = waitingState (snd p)
           \<and> portalTarget (agents s' ! B) = Some p)
    \<and> (\<forall>pre A mid B post. queue (portals s p) @ new = pre @ A # mid @ B # post \<longrightarrow>
           queue (portals s' p) = pre @ A # mid @ B # post
         \<or> (pre \<noteq> [] \<and> queue (portals s' p) = tl pre @ A # mid @ B # post)
         \<or> (pre = [] \<and> queue (portals s' p) = mid @ B # post
             \<and> holdsPortal s' A p \<and> isOccupied (portals s' p)))
    \<and> portals (toggleSimulation s) = portals s
    \<and> portals (s\<lparr>speed := v\<rparr>) = portals s"
proof -
  from updateAgents_Inv [OF inv] obtain s' where
    up: "updateAgents rc rnd delta s = Inr s'" and inv': "Inv s'" by blast
  have tick: "animate rc rnd delta s = Inr s'" using up by (simp add: animate_updateAgents)
  from frame_queue [OF inv up, of p] obtain new where
    d: "distinct (queue (portals s p) @ new)" and sn: "sorted_wrt (<) new"
    and going: "\<forall>B \<in> set new. state (agents s ! B) = goingState (snd p)
           \<and> portalTarget (agents s ! B) = Some p"
    and last: "queue (portals s' p) = queue (portals s p) @ new
       \<or> (\<exists>A rest. queue (portals s p) @ new = A # rest \<and> queue (portals s' p) = rest
             \<and> holdsPortal s' A p \<and> isOccupied (portals s' p))"
    by blast
  have wait: "\<forall>B \<in> set (queue (portals s' p)). state (agents s' ! B) = waitingState (snd p)
           \<and> portalTarget (agents s' ! B) = Some p"
    using Inv_queue_member [OF inv'] by blast
  have order: "\<forall>pre A mid B post. queue (portals s p) @ new = pre @ A # mid @ B # post \<longrightarrow>
           queue (portals s' p) = pre @ A # mid @ B # post
         \<or> (pre \<noteq> [] \<and> queue (portals s' p) = tl pre @ A # mid @ B # post)
         \<or> (pre = [] \<and> queue (portals s' p) = mid @ B # post
             \<and> holdsPortal s' A p \<and> isOccupied (portals s' p))"
  proof (intro allI impI)
    fix pre A mid B post
    assume L: "queue (portals s p) @ new = pre @ A # mid @ B # post"
    from last show "queue (portals s' p) = pre @ A # mid @ B # post
         \<or> (pre \<noteq> [] \<and> queue (portals s' p) = tl pre @ A # mid @ B # post)
         \<or> (pre = [] \<and> queue (portals s' p) = mid @ B # post
             \<and> holdsPortal s' A p \<and> isOccupied (portals s' p))"
    proof
      assume "queue (portals s' p) = queue (portals s p) @ new"
      then show ?thesis using L by simp
    next
      assume "\<exists>A rest. queue (portals s p) @ new = A # rest \<and> queue (portals s' p) = rest
             \<and> holdsPortal s' A p \<and> isOccupied (portals s' p)"
      then obtain A' rest where ar: "queue (portals s p) @ new = A' # rest"
        and r: "queue (portals s' p) = rest"
        and h: "holdsPortal s' A' p" and o: "isOccupied (portals s' p)" by blast
      show ?thesis
      proof (cases pre)
        case Nil
        then have "A' = A" and "rest = mid @ B # post" using ar L by simp_all
        then show ?thesis using Nil r h o by simp
      next
        case (Cons x pre0)
        then have "rest = pre0 @ A # mid @ B # post" using ar L by simp
        then show ?thesis using Cons r by simp
      qed
    qed
  qed
  have ops: "portals (toggleSimulation s) = portals s \<and> portals (s\<lparr>speed := v\<rparr>) = portals s"
    by (simp add: toggleSimulation_def)
  show ?thesis
    using tick inv' d sn going last wait order ops by blast
qed

lemma arrivalSim_tick:
  "\<exists>s'. animate (\<lambda>_ _ _ _. None)
          (\<lambda>n. if n = 24 then 59 / 78 else if n = 25 then 163 / 165 else 1 / 2) (1 / 60)
          arrivalSim = Inr s'
     \<and> queue (portals s' (0, EntryPortal)) = [0]"
  by (simp add: frame_defs arrivalSim_def)

theorem queue_fifo_witness:
  "reachable arrivalSim
   \<and> Inv arrivalSim
   \<and> queue (portals arrivalSim (0, EntryPortal)) = [2]
   \<and> state (agents arrivalSim ! 0) = GOING_TO_DEPT
   \<and> holdsPortal arrivalSim 1 (0, EntryPortal)
   \<and> (\<exists>s'. animate (\<lambda>_ _ _ _. None)
          (\<lambda>n. if n = 24 then 59 / 78 else if n = 25 then 163 / 165 else 1 / 2) (1 / 60)
          arrivalSim = Inr s'
        \<and> Inv s'
        \<and> queue (portals s' (0, EntryPortal)) = [0]
        \<and> state (agents s' ! 0) = WAITING_ENTRY
        \<and> holdsPortal s' 2 (0, EntryPortal)
        \<and> isOccupied (portals s' (0, EntryPortal)))"
proof -
  let ?p = "(0 :: nat, EntryPortal)"
  let ?rnd = "\<lambda>n :: nat. if n = 24 then 59 / 78 else if n = 25 then 163 / 165 else 1 / 2 :: real"
  have inv: "Inv arrivalSim" using arrivalSim_reachable by (rule reachable_Inv)
  from arrivalSim_tick obtain s1 where
    t1: "animate (\<lambda>_ _ _ _. None) ?rnd (1 / 60) arrivalSim = Inr s1"
    and q1: "queue (portals s1 ?p) = [0]" by blast
  from queue_fifo [OF inv, of "\<lambda>_ _ _ _. None" ?rnd "1 / 60" ?p]
  obtain s' new where
    t: "animate (\<lambda>_ _ _ _. None) ?rnd (1 / 60) arrivalSim = Inr s'"
    and inv': "Inv s'"
    and last: "queue (portals s' ?p) = queue (portals arrivalSim ?p) @ new
       \<or> (\<exists>A rest. queue (portals arrivalSim ?p) @ new = A # rest
             \<and> queue (portals s' ?p) = rest
             \<and> holdsPortal s' A ?p \<and> isOccupied (portals s' ?p))"
    and wait: "\<forall>B \<in> set (queue (portals s' ?p)).
        state (agents s' ! B) = waitingState (snd ?p) \<and> portalTarget (agents s' ! B) = Some ?p"
    by blast
  have e: "s' = s1" using t t1 by simp
  have q: "queue (portals s' ?p) = [0]" using q1 e by simp
  have h: "holdsPortal s' 2 ?p \<and> isOccupied (portals s' ?p)"
    using last q by (auto simp: arrivalSim_fields)
  have w: "state (agents s' ! 0) = WAITING_ENTRY" using wait q by simp
  show ?thesis
    using arrivalSim_reachable inv arrivalSim_fields(1,3,5) t inv' q w h by blast
qed

end
